theory Spec2Isabelle
  imports Main "HOL-Library.AList"
begin

section \<open>Data model of the distance-vector network simulator\<close>

text \<open>
  The simulator (\<^verbatim>\<open>1001628688.py\<close>) keeps, per router, a Python \<^verbatim>\<open>dict\<close>
  \<^verbatim>\<open>dv = {dst: (next_hop, cost)}\<close>. A Python dict keeps its keys in insertion order,
  assignment to an existing key keeps the key's position and assignment to a new key appends
  it. That is \<^const>\<open>AList.update\<close> on an association list, and \<^const>\<open>map_of\<close> is the lookup.
  Costs are Python integers (\<^verbatim>\<open>int(cost)\<close>), hence \<^typ>\<open>int\<close>.
\<close>

type_synonym address = string

type_synonym entry = "address \<times> int"

type_synonym DV = "(address \<times> entry) list"

text \<open>\<^verbatim>\<open>inf = 16  # infinity constant\<close>\<close>

definition inf_const :: int where
  "inf_const = 16"

text \<open>
  The three packet classes. A \<^verbatim>\<open>DVPacket\<close> is built by
  \<^verbatim>\<open>DVPacket(src=self.addr, dst=dst, dv=self.dv)\<close>: its \<^verbatim>\<open>dv\<close> field is the sender's dict
  object itself, not a copy. The third argument of \<open>DVPacket\<close> is that reference, written as
  the address of the router owning the dict. (\<^verbatim>\<open>Router.reset\<close> rebinds \<^verbatim>\<open>self.dv\<close> to a fresh
  dict, but it is only ever run for all routers together, by the constructor and by
  \<^verbatim>\<open>Network.reset\<close>, which leaves every queue empty; so between two operations of the
  network every queued reference is the current dict of the router it names.)
\<close>

datatype packet =
    Packet address address
  | DVPacket address address address
  | HTTPPacket address address string

fun src :: "packet \<Rightarrow> address" where
  "src (Packet s d) = s"
| "src (DVPacket s d ref) = s"
| "src (HTTPPacket s d msg) = s"

fun dst :: "packet \<Rightarrow> address" where
  "dst (Packet s d) = d"
| "dst (DVPacket s d ref) = d"
| "dst (HTTPPacket s d msg) = d"

text \<open>
  A router. \<open>in_queue\<close> is the router's own \<^verbatim>\<open>Queue\<close>; \<open>out_queues\<close> lists the keys of
  the dict \<^verbatim>\<open>out_queues\<close>, whose values are the \<open>in_queue\<close>s of the routers so named.
\<close>

record router =
  addr :: address
  costs :: "(address \<times> int) list"
  dv :: DV
  converged :: int
  in_queue :: "packet list"
  out_queues :: "address list"

datatype error = KeyError address | ValueError

text \<open>\<^verbatim>\<open>d[k]\<close> raises \<^verbatim>\<open>KeyError\<close> on a missing key.\<close>

definition getitem :: "(address \<times> 'v) list \<Rightarrow> address \<Rightarrow> error + 'v" where
  "getitem d k = (case map_of d k of None \<Rightarrow> Inl (KeyError k) | Some v \<Rightarrow> Inr v)"

abbreviation keys :: "('k \<times> 'v) list \<Rightarrow> 'k set" where
  "keys d \<equiv> fst ` set d"

section \<open>Router.update_dv\<close>

text \<open>
  Lines 108--112:
  \<^verbatim>\<open>
  for dst, (next_hop, cost) in dv_table.items():
    if dst not in self.dv:
      self.dv[dst] = (next_hop, self.dv[src][1] + cost)
      self.converged = 2
  \<close>
\<close>

fun add_new_entries :: "address \<Rightarrow> DV \<Rightarrow> router \<Rightarrow> error + router" where
  "add_new_entries s [] r = Inr r"
| "add_new_entries s ((d, (next_hop, cost)) # rest) r =
     (if map_of (dv r) d = None then
        (case getitem (dv r) s of
           Inl e \<Rightarrow> Inl e
         | Inr (_, c_src) \<Rightarrow>
             add_new_entries s rest
               (r\<lparr>dv := AList.update d (next_hop, c_src + cost) (dv r), converged := 2\<rparr>))
      else add_new_entries s rest r)"

text \<open>
  Lines 114--119 and 138--143:
  \<^verbatim>\<open>
  for dst, (next_hop, cost) in self.dv.items():
    if cost > inf:
      self.dv[dst] = (next_hop, inf)
    if dst == self.addr:
      self.dv[dst] = (dst, 0)
  \<close>
  The loop assigns to existing keys only, so the dict keeps its size and the iteration
  visits each item once; the first argument after the address is the list of items being
  visited, the second the dict being written.
\<close>

fun upper_bound_entries :: "address \<Rightarrow> DV \<Rightarrow> DV \<Rightarrow> DV" where
  "upper_bound_entries a [] d = d"
| "upper_bound_entries a ((k, (next_hop, cost)) # rest) d =
     (let d1 = (if cost > inf_const then AList.update k (next_hop, inf_const) d else d);
          d2 = (if k = a then AList.update k (k, 0) d1 else d1)
      in upper_bound_entries a rest d2)"

text \<open>
  Lines 121--136:
  \<^verbatim>\<open>
  for dst, (_, cost) in dv_table.items():
    if dst == self.addr:
      continue
    if self.dv[src][1] + cost < self.dv[dst][1]:
      self.dv[dst] = (src, self.dv[src][1] + cost)
      self.converged = 2
  \<close>
\<close>

fun bellman_ford :: "address \<Rightarrow> DV \<Rightarrow> router \<Rightarrow> error + router" where
  "bellman_ford s [] r = Inr r"
| "bellman_ford s ((d, (_, cost)) # rest) r =
     (if d = addr r then bellman_ford s rest r
      else
        (case getitem (dv r) s of
           Inl e \<Rightarrow> Inl e
         | Inr (_, c_src) \<Rightarrow>
             (case getitem (dv r) d of
                Inl e \<Rightarrow> Inl e
              | Inr (_, c_dst) \<Rightarrow>
                  if c_src + cost < c_dst then
                    bellman_ford s rest
                      (r\<lparr>dv := AList.update d (s, c_src + cost) (dv r), converged := 2\<rparr>)
                  else bellman_ford s rest r)))"

text \<open>
  \<^verbatim>\<open>update_dv(self, src, dv_table)\<close>. The table is the sender's dict as it is when the
  packet is processed. When a router has a link to itself the table is the router's own
  dict; then every advertised key is known, the self entry is \<open>(self, 0)\<close> after the first
  bounding pass and the candidate \<open>0 + cost\<close> is never below the bounded cost, so the
  relaxation assigns nothing and reading the items before or during the call is the same.
\<close>

definition update_dv :: "router \<Rightarrow> address \<Rightarrow> DV \<Rightarrow> error + router" where
  "update_dv r s dv_table =
     (let r1 = (if map_of (dv r) s = None
                then r\<lparr>dv := AList.update s (s, inf_const) (dv r)\<rparr> else r)
      in case add_new_entries s dv_table r1 of
           Inl e \<Rightarrow> Inl e
         | Inr r2 \<Rightarrow>
             (let r3 = r2\<lparr>dv := upper_bound_entries (addr r2) (dv r2) (dv r2)\<rparr>
              in case bellman_ford s dv_table r3 of
                   Inl e \<Rightarrow> Inl e
                 | Inr r4 \<Rightarrow>
                     Inr (r4\<lparr>dv := upper_bound_entries (addr r4) (dv r4) (dv r4)\<rparr>)))"

section \<open>Router.reset and the link-cost change of the driver\<close>

text \<open>
  \<^verbatim>\<open>
  def reset(self):
    self.dv = {dst: (dst, cost) for dst, cost in self.costs.items()}
    self.converged = 2
    while not self.in_queue.empty():
      self.in_queue.get()
  \<close>
\<close>

definition reset :: "router \<Rightarrow> router" where
  "reset r = r\<lparr>dv := map (\<lambda>(d, cost). (d, (d, cost))) (costs r), converged := 2, in_queue := []\<rparr>"

text \<open>
  \<^verbatim>\<open>Router.__init__\<close> stores its arguments and calls \<^verbatim>\<open>reset\<close>; the queue handed
  over is a new, empty one.
\<close>

definition Router :: "address \<Rightarrow> (address \<times> int) list \<Rightarrow> address list \<Rightarrow> router" where
  "Router a cs outs =
     reset \<lparr>addr = a, costs = cs, dv = [], converged = 0, in_queue = [], out_queues = outs\<rparr>"

text \<open>
  Menu choice 4 of \<^verbatim>\<open>main\<close>, on the router \<^verbatim>\<open>network.routers[src]\<close>:
  \<^verbatim>\<open>
  network.routers[src].costs[dst] = int(cost)
  if dst not in network.routers[src].dv:
    network.routers[src].dv[dst] = (dst, inf)
  old_cost = network.routers[src].dv[dst][1]
  if cost < old_cost:
    network.routers[src].converged = 2
    network.routers[src].dv[dst] = (dst, cost)
  \<close>
\<close>

definition change_link_cost :: "router \<Rightarrow> address \<Rightarrow> int \<Rightarrow> error + router" where
  "change_link_cost r d cost =
     (let r1 = r\<lparr>costs := AList.update d cost (costs r)\<rparr>;
          r2 = (if map_of (dv r1) d = None
                then r1\<lparr>dv := AList.update d (d, inf_const) (dv r1)\<rparr> else r1)
      in case getitem (dv r2) d of
           Inl e \<Rightarrow> Inl e
         | Inr (_, old_cost) \<Rightarrow>
             if cost < old_cost
             then Inr (r2\<lparr>converged := 2, dv := AList.update d (d, cost) (dv r2)\<rparr>)
             else Inr r2)"

section \<open>The network\<close>

text \<open>
  What the routers print, as a trace: the drop, forwarding, DV and message lines of
  \<^verbatim>\<open>route\<close> and \<^verbatim>\<open>read_packet\<close>, each with the printing router first.
\<close>

datatype event =
    Dropped address address address
  | Forwarding address address
  | ReceivedDV address address
  | ReceivedMessage address address string

text \<open>
  \<^verbatim>\<open>Network.routers\<close> is a dict over the set \<^verbatim>\<open>addrs\<close>; the list \<open>routers\<close> is that dict
  in its iteration order. \<^verbatim>\<open>Network.queues[a]\<close> is the \<open>in_queue\<close> of the router at \<open>a\<close>.
\<close>

record network =
  routers :: "router list"
  printed :: "event list"

definition get_router :: "address \<Rightarrow> network \<Rightarrow> router option" where
  "get_router a net = find (\<lambda>r. addr r = a) (routers net)"

definition set_router :: "router \<Rightarrow> network \<Rightarrow> network" where
  "set_router r' net =
     net\<lparr>routers := map (\<lambda>r. if addr r = addr r' then r' else r) (routers net)\<rparr>"

text \<open>\<^verbatim>\<open>queue.put(packet)\<close> on the queue of the router at \<open>a\<close>.\<close>

definition put :: "address \<Rightarrow> packet \<Rightarrow> network \<Rightarrow> network" where
  "put a p net =
     net\<lparr>routers := map (\<lambda>r. if addr r = a then r\<lparr>in_queue := in_queue r @ [p]\<rparr> else r)
                        (routers net)\<rparr>"

definition print :: "event \<Rightarrow> network \<Rightarrow> network" where
  "print e net = net\<lparr>printed := printed net @ [e]\<rparr>"

text \<open>
  \<^verbatim>\<open>
  def read_packet(self, packet):
    if isinstance(packet, DVPacket):
      print(f'{self.addr}: received DV from {packet.src}')
      self.update_dv(packet.src, packet.dv)
    elif isinstance(packet, HTTPPacket):
      print(f'{self.addr}: received message from {packet.src}: {packet.msg}')
    else:
      raise ValueError(f'Unknown packet type: {type(packet)}')
  \<close>
  \<^verbatim>\<open>packet.dv\<close> is read through the reference when the packet is processed. \<open>self\<close> is the
  router at \<open>a\<close>; the operations of the network only call a router that exists, so the
  branches for a missing router are never taken by them.
\<close>

definition read_packet :: "address \<Rightarrow> packet \<Rightarrow> network \<Rightarrow> error + network" where
  "read_packet a p net =
     (case get_router a net of
        None \<Rightarrow> Inl (KeyError a)
      | Some r \<Rightarrow>
          (case p of
             DVPacket s d ref \<Rightarrow>
               (case get_router ref net of
                  None \<Rightarrow> Inl (KeyError ref)
                | Some sender \<Rightarrow>
                    (case update_dv r s (dv sender) of
                       Inl e \<Rightarrow> Inl e
                     | Inr r' \<Rightarrow> Inr (set_router r' (print (ReceivedDV a s) net))))
           | HTTPPacket s d msg \<Rightarrow> Inr (print (ReceivedMessage a s msg) net)
           | Packet s d \<Rightarrow> Inl ValueError))"

text \<open>
  The body of the loop of \<^verbatim>\<open>route\<close>, for the packet just taken from the queue:
  \<^verbatim>\<open>
  if packet.dst == self.addr:
    self.read_packet(packet)
  elif packet.dst not in self.dv:
    print(f'{self.addr}: dropped packet from {packet.src} to {packet.dst}. ...')
  else:
    next_hop, _ = self.dv[packet.dst]
    self.out_queues[next_hop].put(packet)
    print(f'{self.addr}: forwarding packet to {next_hop}')
  \<close>
\<close>

definition route_packet :: "address \<Rightarrow> packet \<Rightarrow> network \<Rightarrow> error + network" where
  "route_packet a p net =
     (case get_router a net of
        None \<Rightarrow> Inl (KeyError a)
      | Some r \<Rightarrow>
          if dst p = addr r then read_packet a p net
          else if map_of (dv r) (dst p) = None then Inr (print (Dropped a (src p) (dst p)) net)
          else
            (case getitem (dv r) (dst p) of
               Inl e \<Rightarrow> Inl e
             | Inr (next_hop, _) \<Rightarrow>
                 if next_hop \<in> set (out_queues r)
                 then Inr (print (Forwarding a next_hop) (put next_hop p net))
                 else Inl (KeyError next_hop)))"

text \<open>
  \<^verbatim>\<open>
  def route(self):
    while not self.in_queue.empty():
      packet = self.in_queue.get()
      ...
  \<close>
  A router that forwards to itself refills the queue it is draining, so the loop need not
  end: \<open>None\<close> is the run that never returns.
\<close>

partial_function (option) route :: "address \<Rightarrow> network \<Rightarrow> (error + network) option" where
  "route a net =
     (case get_router a net of
        None \<Rightarrow> Some (Inl (KeyError a))
      | Some r \<Rightarrow>
          (case in_queue r of
             [] \<Rightarrow> Some (Inr net)
           | p # rest \<Rightarrow>
               (case route_packet a p (set_router (r\<lparr>in_queue := rest\<rparr>) net) of
                  Inl e \<Rightarrow> Some (Inl e)
                | Inr net' \<Rightarrow> route a net')))"

declare route.simps [code]

text \<open>
  \<^verbatim>\<open>
  def send_dv(self):
    if self.converged == 0:
      return
    self.converged -= 1
    for dst, queue in self.out_queues.items():
      queue.put(DVPacket(src=self.addr, dst=dst, dv=self.dv))
  \<close>
\<close>

definition send_dv :: "address \<Rightarrow> network \<Rightarrow> network" where
  "send_dv a net =
     (case get_router a net of
        None \<Rightarrow> net
      | Some r \<Rightarrow>
          if converged r = 0 then net
          else fold (\<lambda>d. put d (DVPacket (addr r) d (addr r))) (out_queues r)
                 (set_router (r\<lparr>converged := converged r - 1\<rparr>) net))"

text \<open>
  \<^verbatim>\<open>Network.__init__\<close>. The argument \<open>lines\<close> is the topology file, one triple
  \<^verbatim>\<open>(src, dst, int(cost))\<close> per line; \<open>addrs\<close> is the set \<^verbatim>\<open>addrs\<close> in the order in which
  Python iterates over it, which the language leaves open.
  \<^verbatim>\<open>
  for line in open(file):
    (src, dst, cost) = line.split()
    addrs = addrs | {src, dst}
    costs[(src, dst)] = int(cost)
  self.queues = {addr: Queue() for addr in addrs}
  self.routers = {addr: Router(addr=addr,
      costs={dst: costs[(src, dst)] for (src, dst) in costs.keys() if src == addr},
      in_queue=self.queues[addr],
      out_queues={dst: self.queues[dst] for (src, dst) in costs.keys() if src == addr}
    ) for addr in addrs}
  \<close>
\<close>

definition read_costs :: "(address \<times> address \<times> int) list \<Rightarrow> ((address \<times> address) \<times> int) list" where
  "read_costs lines = fold (\<lambda>(s, d, cost). AList.update (s, d) cost) lines []"

definition is_addrs :: "address list \<Rightarrow> (address \<times> address \<times> int) list \<Rightarrow> bool" where
  "is_addrs addrs lines \<longleftrightarrow>
     distinct addrs \<and> set addrs = set (concat (map (\<lambda>(s, d, cost). [s, d]) lines))"

definition Network :: "address list \<Rightarrow> (address \<times> address \<times> int) list \<Rightarrow> network" where
  "Network addrs lines =
     (let costs = read_costs lines
      in \<lparr>routers =
            map (\<lambda>a. Router a
                       (map (\<lambda>((s, d), cost). (d, cost)) (filter (\<lambda>((s, d), cost). s = a) costs))
                       (map (\<lambda>((s, d), cost). d) (filter (\<lambda>((s, d), cost). s = a) costs)))
                addrs,
          printed = []\<rparr>)"

text \<open>\<^verbatim>\<open>Network.reset\<close>, \<^verbatim>\<open>Network.send_dv\<close>, \<^verbatim>\<open>Network.route\<close>: one call per router, in order.\<close>

definition Network_reset :: "network \<Rightarrow> network" where
  "Network_reset net = net\<lparr>routers := map reset (routers net)\<rparr>"

definition Network_send_dv :: "network \<Rightarrow> network" where
  "Network_send_dv net = fold send_dv (map addr (routers net)) net"

fun route_each :: "address list \<Rightarrow> network \<Rightarrow> (error + network) option" where
  "route_each [] net = Some (Inr net)"
| "route_each (a # as) net =
     (case route a net of
        None \<Rightarrow> None
      | Some (Inl e) \<Rightarrow> Some (Inl e)
      | Some (Inr net') \<Rightarrow> route_each as net')"

definition Network_route :: "network \<Rightarrow> (error + network) option" where
  "Network_route net = route_each (map addr (routers net)) net"

text \<open>\<^verbatim>\<open>return all(router.converged==0 for router in self.routers.values())\<close>\<close>

definition is_stable :: "network \<Rightarrow> bool" where
  "is_stable net = list_all (\<lambda>r. converged r = 0) (routers net)"

text \<open>\<^verbatim>\<open>self.send_dv(); self.route()\<close>\<close>

definition step :: "network \<Rightarrow> (error + network) option" where
  "step net = Network_route (Network_send_dv net)"

text \<open>
  \<^verbatim>\<open>
  steps = 0
  while not self.is_stable():
    self.step()
    steps += 1
  return steps
  \<close>
\<close>

partial_function (option) converge_loop :: "nat \<Rightarrow> network \<Rightarrow> (error + nat \<times> network) option" where
  "converge_loop steps net =
     (if is_stable net then Some (Inr (steps, net))
      else
        (case step net of
           None \<Rightarrow> None
         | Some (Inl e) \<Rightarrow> Some (Inl e)
         | Some (Inr net') \<Rightarrow> converge_loop (steps + 1) net'))"

declare converge_loop.simps [code]

definition run_until_converged :: "network \<Rightarrow> (error + nat \<times> network) option" where
  "run_until_converged net = converge_loop 0 net"

text \<open>
  Menu choice 3 of \<^verbatim>\<open>main\<close>:
  \<^verbatim>\<open>network.queues[src].put(HTTPPacket(src=src, dst=dst, msg=msg))\<close>,
  and menu choice 4 on the network.
\<close>

definition send_message :: "address \<Rightarrow> address \<Rightarrow> string \<Rightarrow> network \<Rightarrow> error + network" where
  "send_message s d msg net =
     (case get_router s net of
        None \<Rightarrow> Inl (KeyError s)
      | Some r \<Rightarrow> Inr (put s (HTTPPacket s d msg) net))"

definition Network_change_link_cost :: "address \<Rightarrow> address \<Rightarrow> int \<Rightarrow> network \<Rightarrow> error + network" where
  "Network_change_link_cost s d cost net =
     (case get_router s net of
        None \<Rightarrow> Inl (KeyError s)
      | Some r \<Rightarrow>
          (case change_link_cost r d cost of
             Inl e \<Rightarrow> Inl e
           | Inr r' \<Rightarrow> Inr (set_router r' net)))"

text \<open>
  Two phases of \<open>update_dv\<close> by name, for the proofs: the insertion of an unknown
  \<^verbatim>\<open>src\<close> (lines 105--106) and one bounding pass over the router's own dict.
\<close>

definition know_src :: "address \<Rightarrow> router \<Rightarrow> router" where
  "know_src s r =
     (if map_of (dv r) s = None then r\<lparr>dv := AList.update s (s, inf_const) (dv r)\<rparr> else r)"

definition bound :: "router \<Rightarrow> router" where
  "bound r = r\<lparr>dv := upper_bound_entries (addr r) (dv r) (dv r)\<rparr>"

text \<open>What one bounding pass makes of the entry \<open>(next_hop, cost)\<close> at key \<open>k\<close>.\<close>

definition bound_entry :: "address \<Rightarrow> address \<Rightarrow> entry \<Rightarrow> entry" where
  "bound_entry a k e =
     (if k = a then (k, 0) else if snd e > inf_const then (fst e, inf_const) else e)"

text \<open>
  For the statements about the network: whether a queue still holds a distance-vector
  packet, and the routing state of all routers (address, distance vector, counter).
\<close>

fun is_dv :: "packet \<Rightarrow> bool" where
  "is_dv (DVPacket s d ref) = True"
| "is_dv (HTTPPacket s d msg) = False"
| "is_dv (Packet s d) = False"

definition no_dv_pending :: "network \<Rightarrow> bool" where
  "no_dv_pending net = list_all (\<lambda>r. list_all (\<lambda>p. \<not> is_dv p) (in_queue r)) (routers net)"

definition tables :: "network \<Rightarrow> (address \<times> DV \<times> int) list" where
  "tables net = map (\<lambda>r. (addr r, dv r, converged r)) (routers net)"

text \<open>
  For the termination of \<^verbatim>\<open>run_until_converged\<close>: the weight of a destination in a distance
  vector (its cost capped at \<open>inf\<close>, or \<open>inf + 1\<close> while it is unknown), the potential of a
  router over the addresses \<open>U\<close> of the network, and the invariant of the networks that
  \<^verbatim>\<open>Network\<close>, \<^verbatim>\<open>send_dv\<close> and \<^verbatim>\<open>route\<close> produce from a topology without negative costs.
\<close>

definition weight :: "DV \<Rightarrow> address \<Rightarrow> nat" where
  "weight d k = (case map_of d k of None \<Rightarrow> 17 | Some (next_hop, cost) \<Rightarrow> nat (min cost inf_const))"

definition potential :: "address list \<Rightarrow> router \<Rightarrow> nat" where
  "potential U r = 3 * sum_list (map (weight (dv r)) U) + nat (converged r)"

definition total_potential :: "network \<Rightarrow> nat" where
  "total_potential net = sum_list (map (potential (map addr (routers net))) (routers net))"

definition cost_ok :: "DV \<Rightarrow> bool" where
  "cost_ok d = list_all (\<lambda>(k, next_hop, cost). 0 \<le> cost) d"

definition router_ok :: "address list \<Rightarrow> router \<Rightarrow> bool" where
  "router_ok U r \<longleftrightarrow>
     distinct (map fst (dv r)) \<and> keys (dv r) \<subseteq> set U \<and> cost_ok (dv r) \<and>
     set (out_queues r) \<subseteq> set U \<and> 0 \<le> converged r \<and> converged r \<le> 2 \<and>
     list_all (\<lambda>p. p \<in> set (map (\<lambda>s. DVPacket s (addr r) s) U)) (in_queue r)"

definition network_ok :: "network \<Rightarrow> bool" where
  "network_ok net \<longleftrightarrow>
     distinct (map addr (routers net)) \<and>
     list_all (router_ok (map addr (routers net))) (routers net)"


section \<open>Keys of the distance vector\<close>

lemma keys_update: "keys (AList.update k v d) = insert k (keys d)"
  by (induction d) auto

lemma map_of_None_keys: "map_of d k = None \<longleftrightarrow> k \<notin> keys d"
  by (simp add: map_of_eq_None_iff)

lemma getitem_Inr: "k \<in> keys d \<Longrightarrow> \<exists>v. getitem d k = Inr v"
  by (cases "map_of d k") (auto simp: getitem_def map_of_None_keys)

lemma getitem_dv_Inr: "s \<in> keys (d::DV) \<Longrightarrow> \<exists>n c. getitem d s = Inr (n, c)"
  using getitem_Inr by fastforce

lemma getitem_Some: "getitem d k = Inr v \<longleftrightarrow> map_of d k = Some v"
  by (cases "map_of d k") (auto simp: getitem_def)

lemma add_new_entries_props:
  "s \<in> keys (dv r) \<Longrightarrow>
   \<exists>r'. add_new_entries s t r = Inr r' \<and> addr r' = addr r \<and> keys (dv r') = keys (dv r) \<union> keys t"
proof (induction t arbitrary: r)
  case Nil
  then show ?case by simp
next
  case (Cons x t)
  obtain d nh c where x: "x = (d, (nh, c))" by (cases x) auto
  show ?case
  proof (cases "map_of (dv r) d = None")
    case True
    from getitem_dv_Inr[OF Cons.prems] obtain n cs where g: "getitem (dv r) s = Inr (n, cs)"
      by blast
    let ?r = "r\<lparr>dv := AList.update d (nh, cs + c) (dv r), converged := 2\<rparr>"
    have "s \<in> keys (dv ?r)" using Cons.prems by (simp add: keys_update)
    from Cons.IH[OF this] obtain r' where
      r': "add_new_entries s t ?r = Inr r'" "addr r' = addr ?r" "keys (dv r') = keys (dv ?r) \<union> keys t"
      by blast
    have 1: "add_new_entries s (x # t) r = Inr r'"
      unfolding x using True g r'(1) by simp
    have 2: "keys (dv r') = keys (dv r) \<union> keys (x # t)"
      unfolding x using r'(3) by (simp add: keys_update)
    have 3: "addr r' = addr r" using r'(2) by simp
    from 1 2 3 show ?thesis by blast
  next
    case False
    then have din: "d \<in> keys (dv r)" by (simp add: map_of_None_keys)
    from Cons.IH[OF Cons.prems] obtain r' where
      r': "add_new_entries s t r = Inr r'" "addr r' = addr r" "keys (dv r') = keys (dv r) \<union> keys t"
      by blast
    have 1: "add_new_entries s (x # t) r = Inr r'"
      unfolding x using r'(1) by (simp add: False)
    have 2: "keys (dv r') = keys (dv r) \<union> keys (x # t)"
      unfolding x using r'(3) din by auto
    from 1 2 r'(2) show ?thesis by blast
  qed
qed

lemma add_new_entries_known: "keys t \<subseteq> keys (dv r) \<Longrightarrow> add_new_entries s t r = Inr r"
proof (induction t)
  case Nil
  then show ?case by simp
next
  case (Cons x t)
  obtain d nh c where x: "x = (d, (nh, c))" by (cases x) auto
  from Cons.prems have n: "map_of (dv r) d \<noteq> None" unfolding x by (simp add: map_of_None_keys)
  from Cons have "add_new_entries s t r = Inr r" by simp
  then show ?case unfolding x by (simp add: n)
qed

lemma keys_upper_bound_entries:
  "keys t \<subseteq> keys d \<Longrightarrow> keys (upper_bound_entries a t d) = keys d"
proof (induction t arbitrary: d)
  case Nil
  then show ?case by simp
next
  case (Cons x t)
  obtain k nh c where x: "x = (k, (nh, c))" by (cases x) auto
  let ?d1 = "if c > inf_const then AList.update k (nh, inf_const) d else d"
  let ?d2 = "if k = a then AList.update k (k, 0) ?d1 else ?d1"
  have kd: "k \<in> keys d" using Cons.prems unfolding x by simp
  then have k2: "keys ?d2 = keys d" by (auto simp: keys_update)
  have "keys t \<subseteq> keys ?d2" using Cons.prems unfolding k2 by simp
  from Cons.IH[OF this] have "keys (upper_bound_entries a t ?d2) = keys d" unfolding k2 .
  then show ?case unfolding x by (simp add: Let_def)
qed

lemma bellman_ford_props:
  "s \<in> keys (dv r) \<Longrightarrow> keys t \<subseteq> insert (addr r) (keys (dv r)) \<Longrightarrow>
   \<exists>r'. bellman_ford s t r = Inr r' \<and> addr r' = addr r \<and> keys (dv r') = keys (dv r)"
proof (induction t arbitrary: r)
  case Nil
  then show ?case by simp
next
  case (Cons x t)
  obtain d nh c where x: "x = (d, (nh, c))" by (cases x) auto
  have sub: "keys t \<subseteq> insert (addr r) (keys (dv r))" using Cons.prems(2) by auto
  show ?case
  proof (cases "d = addr r")
    case True
    from Cons.IH[OF Cons.prems(1) sub] show ?thesis unfolding x by (simp add: True)
  next
    case False
    then have din: "d \<in> keys (dv r)" using Cons.prems(2) unfolding x by auto
    from getitem_dv_Inr[OF Cons.prems(1)] obtain n cs where gs: "getitem (dv r) s = Inr (n, cs)"
      by blast
    from getitem_dv_Inr[OF din] obtain m cd where gd: "getitem (dv r) d = Inr (m, cd)"
      by blast
    show ?thesis
    proof (cases "cs + c < cd")
      case lt: True
      let ?r = "r\<lparr>dv := AList.update d (s, cs + c) (dv r), converged := 2\<rparr>"
      have k: "keys (dv ?r) = keys (dv r)" using din by (auto simp: keys_update)
      have 1: "s \<in> keys (dv ?r)" unfolding k by (rule Cons.prems(1))
      have 2: "keys t \<subseteq> insert (addr ?r) (keys (dv ?r))" unfolding k using sub by simp
      from Cons.IH[OF 1 2] obtain r' where
        r': "bellman_ford s t ?r = Inr r'" "addr r' = addr ?r" "keys (dv r') = keys (dv ?r)"
        by blast
      have "bellman_ford s (x # t) r = Inr r'"
        unfolding x using r'(1) by (simp add: False gs gd lt)
      with r'(2,3) k show ?thesis by simp
    next
      case ge: False
      from Cons.IH[OF Cons.prems(1) sub] obtain r' where
        r': "bellman_ford s t r = Inr r'" "addr r' = addr r" "keys (dv r') = keys (dv r)"
        by blast
      have "bellman_ford s (x # t) r = Inr r'"
        unfolding x using r'(1) by (simp add: False gs gd ge)
      with r'(2,3) show ?thesis by simp
    qed
  qed
qed

text \<open>The five phases of \<open>update_dv\<close>, with the state between them.\<close>

lemma keys_know_src: "keys (dv (know_src s r)) = insert s (keys (dv r))"
  by (auto simp: know_src_def keys_update map_of_None_keys)

lemma addr_know_src: "addr (know_src s r) = addr r"
  by (simp add: know_src_def)

lemma converged_know_src: "converged (know_src s r) = converged r"
  by (simp add: know_src_def)

lemma know_src_known: "s \<in> keys (dv r) \<Longrightarrow> know_src s r = r"
  by (simp add: know_src_def map_of_None_keys)

lemma keys_bound: "keys (dv (bound r)) = keys (dv r)"
  by (simp add: bound_def keys_upper_bound_entries)

lemma addr_bound: "addr (bound r) = addr r"
  by (simp add: bound_def)

lemma converged_bound: "converged (bound r) = converged r"
  by (simp add: bound_def)

lemma update_dv_phases:
  obtains r2 r4 where
    "add_new_entries s t (know_src s r) = Inr r2"
    "bellman_ford s t (bound r2) = Inr r4"
    "update_dv r s t = Inr (bound r4)"
    "addr r2 = addr r" "addr r4 = addr r"
    "keys (dv r2) = insert s (keys (dv r)) \<union> keys t"
    "keys (dv r4) = keys (dv r2)"
proof -
  have "s \<in> keys (dv (know_src s r))" by (simp add: keys_know_src)
  from add_new_entries_props[OF this, of t] obtain r2 where
    r2: "add_new_entries s t (know_src s r) = Inr r2" "addr r2 = addr r"
        "keys (dv r2) = insert s (keys (dv r)) \<union> keys t"
    by (auto simp: keys_know_src addr_know_src)
  have s3: "s \<in> keys (dv (bound r2))" by (simp add: keys_bound r2(3))
  have t3: "keys t \<subseteq> insert (addr (bound r2)) (keys (dv (bound r2)))"
    by (auto simp: keys_bound r2(3))
  from bellman_ford_props[OF s3 t3] obtain r4 where
    r4: "bellman_ford s t (bound r2) = Inr r4" "addr r4 = addr r" "keys (dv r4) = keys (dv r2)"
    by (auto simp: keys_bound addr_bound r2(2))
  have u: "update_dv r s t = Inr (bound r4)"
    using r2(1) r4(1) by (simp add: update_dv_def Let_def know_src_def bound_def)
  from that[OF r2(1) r4(1) u r2(2) r4(2) r2(3) r4(3)] show thesis .
qed

section \<open>Totality of the update\<close>

text \<open>
  Claim C10. For every neighbour address \<open>s\<close> and every advertised table \<open>t\<close>,
  \<open>update_dv\<close> completes without a \<^verbatim>\<open>KeyError\<close>: \<open>s\<close> is inserted before \<open>dv[s]\<close> is
  read, and every destination read by the relaxation pass is known or was inserted by the
  pass that learns new entries. The result knows \<open>s\<close> and every advertised destination.
\<close>

theorem update_dv_total:
  "\<exists>r'. update_dv r s t = Inr r' \<and> s \<in> keys (dv r') \<and> keys t \<subseteq> keys (dv r')"
proof (rule update_dv_phases[of s t r])
  fix r2 r4
  assume u: "update_dv r s t = Inr (bound r4)"
    and k2: "keys (dv r2) = insert s (keys (dv r)) \<union> keys t"
    and k4: "keys (dv r4) = keys (dv r2)"
  have "s \<in> keys (dv (bound r4))" by (simp add: keys_bound k4 k2)
  moreover have "keys t \<subseteq> keys (dv (bound r4))" unfolding keys_bound k4 k2 by blast
  ultimately show ?thesis using u by simp
qed

section \<open>The bounding pass\<close>

lemma map_of_update: "map_of (AList.update k v d) = (map_of d)(k \<mapsto> v)"
  by (rule update_conv')

lemma upper_bound_entries_self:
  "map_of (upper_bound_entries a t d) a = (if a \<in> keys t then Some (a, 0) else map_of d a)"
proof (induction t arbitrary: d)
  case Nil
  then show ?case by simp
next
  case (Cons x t)
  obtain k nh c where x: "x = (k, (nh, c))" by (cases x) auto
  let ?d1 = "if c > inf_const then AList.update k (nh, inf_const) d else d"
  let ?d2 = "if k = a then AList.update k (k, 0) ?d1 else ?d1"
  have step: "upper_bound_entries a (x # t) d = upper_bound_entries a t ?d2"
    unfolding x by (simp add: Let_def)
  have d2: "map_of ?d2 a = (if k = a then Some (a, 0) else map_of d a)"
    by (simp add: map_of_update)
  have "map_of (upper_bound_entries a (x # t) d) a = map_of (upper_bound_entries a t ?d2) a"
    by (simp only: step)
  also have "\<dots> = (if a \<in> keys t then Some (a, 0) else map_of ?d2 a)"
    by (rule Cons.IH)
  also have "\<dots> = (if a \<in> keys (x # t) then Some (a, 0) else map_of d a)"
    unfolding d2 x by auto
  finally show ?case .
qed

lemma upper_bound_entries_le:
  "map_of (upper_bound_entries a t d) k = Some (nh, c) \<Longrightarrow>
   c \<le> inf_const \<or> (map_of d k = Some (nh, c) \<and> (k, (nh, c)) \<notin> set t)"
proof (induction t arbitrary: d)
  case Nil
  then show ?case by simp
next
  case (Cons x t)
  obtain k0 n0 c0 where x: "x = (k0, (n0, c0))" by (cases x) auto
  let ?d1 = "if c0 > inf_const then AList.update k0 (n0, inf_const) d else d"
  let ?d2 = "if k0 = a then AList.update k0 (k0, 0) ?d1 else ?d1"
  have step: "upper_bound_entries a (x # t) d = upper_bound_entries a t ?d2"
    unfolding x by (simp add: Let_def)
  from Cons.prems have "map_of (upper_bound_entries a t ?d2) k = Some (nh, c)"
    unfolding step .
  from Cons.IH[OF this]
  have ih: "c \<le> inf_const \<or> (map_of ?d2 k = Some (nh, c) \<and> (k, (nh, c)) \<notin> set t)" .
  show ?case
  proof (cases "c \<le> inf_const")
    case True
    then show ?thesis by simp
  next
    case False
    with ih have m: "map_of ?d2 k = Some (nh, c)" and nt: "(k, (nh, c)) \<notin> set t" by auto
    have big: "\<not> c \<le> inf_const" by (rule False)
    have "map_of d k = Some (nh, c) \<and> (k, nh, c) \<noteq> (k0, n0, c0)"
    proof (cases "k = k0")
      case True
      show ?thesis
      proof (cases "c0 > inf_const \<or> k0 = a")
        case True
        with m \<open>k = k0\<close> big show ?thesis
          by (auto simp: map_of_update inf_const_def split: if_splits)
      next
        case False
        with m \<open>k = k0\<close> big show ?thesis by auto
      qed
    next
      case False
      with m show ?thesis by (auto simp: map_of_update split: if_splits)
    qed
    with nt show ?thesis unfolding x by simp
  qed
qed

lemma bound_le: "map_of (dv (bound r)) k = Some (nh, c) \<Longrightarrow> c \<le> inf_const"
proof -
  assume a: "map_of (dv (bound r)) k = Some (nh, c)"
  then have "map_of (upper_bound_entries (addr r) (dv r) (dv r)) k = Some (nh, c)"
    by (simp add: bound_def)
  from upper_bound_entries_le[OF this] show ?thesis
    by (auto dest: map_of_SomeD)
qed

lemma bound_self:
  "map_of (dv (bound r)) (addr r) = (if addr r \<in> keys (dv r) then Some (addr r, 0) else None)"
  by (simp add: bound_def upper_bound_entries_self map_of_None_keys)

lemma map_of_reset:
  "map_of (dv (reset r)) k = map_option (\<lambda>cost. (k, cost)) (map_of (costs r) k)"
proof -
  have "map_of (map (\<lambda>(d, cost). (d, (d, cost))) cs) k =
          map_option (\<lambda>cost. (k, cost)) (map_of cs k)" for cs :: "(address \<times> int) list"
    by (induction cs) auto
  then show ?thesis by (simp add: reset_def)
qed

section \<open>The self route\<close>

text \<open>
  Claim C1, as the code has it. After a distance-vector update the router's own address
  maps to \<open>(self, 0)\<close> as soon as it is a key at all, which is the case when it was a key
  before, or is advertised in the table, or is the advertising neighbour; otherwise the
  vector still has no self entry. \<^verbatim>\<open>reset\<close>, and with it the constructor, builds the
  distance vector from the link costs alone: every key \<open>k\<close> of \<^verbatim>\<open>costs\<close> gets the entry
  \<open>(k, costs[k])\<close> and no other key gets one. So a new router has a self entry only when it
  has a link to itself, and that entry then carries the cost of the link, not 0.
\<close>

theorem update_dv_self_route:
  "(update_dv r s t = Inr r' \<longrightarrow>
    map_of (dv r') (addr r) =
      (if addr r \<in> insert s (keys (dv r)) \<union> keys t then Some (addr r, 0) else None)) \<and>
   map_of (dv (reset r)) k = map_option (\<lambda>cost. (k, cost)) (map_of (costs r) k) \<and>
   map_of (dv (Router a cs outs)) k = map_option (\<lambda>cost. (k, cost)) (map_of cs k)"
proof (intro conjI impI)
  assume u': "update_dv r s t = Inr r'"
  show "map_of (dv r') (addr r) =
      (if addr r \<in> insert s (keys (dv r)) \<union> keys t then Some (addr r, 0) else None)"
  proof (rule update_dv_phases[of s t r])
    fix r2 r4
    assume u: "update_dv r s t = Inr (bound r4)"
      and a4: "addr r4 = addr r"
      and k2: "keys (dv r2) = insert s (keys (dv r)) \<union> keys t"
      and k4: "keys (dv r4) = keys (dv r2)"
    from u u' have r': "r' = bound r4" by simp
    have "map_of (dv (bound r4)) (addr r4) =
            (if addr r4 \<in> keys (dv r4) then Some (addr r4, 0) else None)"
      by (rule bound_self)
    then show ?thesis unfolding r' a4 k4 k2 .
  qed
next
  show "map_of (dv (reset r)) k = map_option (\<lambda>cost. (k, cost)) (map_of (costs r) k)"
    by (rule map_of_reset)
next
  show "map_of (dv (Router a cs outs)) k = map_option (\<lambda>cost. (k, cost)) (map_of cs k)"
    unfolding Router_def map_of_reset by simp
qed

theorem update_dv_self_route_witness:
  "update_dv (Router ''A'' [(''B'', 1)] [''B'']) ''B'' [(''A'', (''A'', 1)), (''C'', (''C'', 5))]
     = Inr \<lparr>addr = ''A'', costs = [(''B'', 1)],
            dv = [(''B'', (''B'', 1)), (''A'', (''A'', 0)), (''C'', (''C'', 6))],
            converged = 2, in_queue = [], out_queues = [''B'']\<rparr>
   \<and> map_of [(''B'', (''B'', 1 :: int)), (''A'', (''A'', 0)), (''C'', (''C'', 6))] ''A''
       = Some (''A'', 0)
   \<and> map_of (dv (Router ''A'' [(''A'', 3), (''B'', 1)] [''A'', ''B''])) ''A'' = Some (''A'', 3)"
proof -
  have e: "update_dv (Router ''A'' [(''B'', 1)] [''B'']) ''B'' [(''A'', (''A'', 1)), (''C'', (''C'', 5))]
     = Inr \<lparr>addr = ''A'', costs = [(''B'', 1)],
            dv = [(''B'', (''B'', 1)), (''A'', (''A'', 0)), (''C'', (''C'', 6))],
            converged = 2, in_queue = [], out_queues = [''B'']\<rparr>"
    by code_simp
  from update_dv_self_route[where r = "Router ''A'' [(''B'', 1)] [''B'']" and s = "''B''"
      and t = "[(''A'', (''A'', 1)), (''C'', (''C'', 5))]"
      and r' = "\<lparr>addr = ''A'', costs = [(''B'', 1)],
            dv = [(''B'', (''B'', 1)), (''A'', (''A'', 0)), (''C'', (''C'', 6))],
            converged = 2, in_queue = [], out_queues = [''B'']\<rparr>"
      and a = "''A''" and cs = "[(''A'', 3), (''B'', 1)]" and outs = "[''A'', ''B'']"
      and k = "''A''"]
  show ?thesis using e by simp
qed

text \<open>
  The claim as stated fails at construction: the router \<open>A\<close> of the topology
  \<^verbatim>\<open>A B 1\<close>, \<^verbatim>\<open>B A 1\<close> has the distance vector \<open>{B: (B, 1)}\<close>, without an entry for \<open>A\<close>.
\<close>

theorem self_route_counterexample:
  "get_router ''A'' (Network [''A'', ''B''] [(''A'', ''B'', 1), (''B'', ''A'', 1)])
     = Some \<lparr>addr = ''A'', costs = [(''B'', 1)], dv = [(''B'', (''B'', 1))],
             converged = 2, in_queue = [], out_queues = [''B'']\<rparr>
   \<and> map_of [(''B'', (''B'', 1 :: int))] ''A'' = None"
  by code_simp
section \<open>Learning new destinations\<close>

text \<open>
  Claim C5 says that a learnt destination gets the advertising neighbour as its next hop.
  The code stores the next hop of the advertised entry instead (line 111), whereas the
  relaxation (line 135) stores the neighbour. Router \<open>A\<close> with the vector \<open>{B: (B, 1)}\<close>
  learns \<open>C\<close> from \<open>B\<close>'s table \<open>{A: (A, 1), C: (C, 5)}\<close> at the cost \<open>1 + 5\<close>, with the next
  hop \<open>C\<close>, which is not a neighbour of \<open>A\<close>.
\<close>

theorem update_dv_learns_advertised_next_hop:
  "update_dv \<lparr>addr = ''A'', costs = [(''B'', 1)], dv = [(''B'', (''B'', 1))],
              converged = 0, in_queue = [], out_queues = [''B'']\<rparr>
     ''B'' [(''A'', (''A'', 1)), (''C'', (''C'', 5))]
   = Inr \<lparr>addr = ''A'', costs = [(''B'', 1)],
          dv = [(''B'', (''B'', 1)), (''A'', (''A'', 0)), (''C'', (''C'', 6))],
          converged = 2, in_queue = [], out_queues = [''B'']\<rparr>"
  by code_simp

section \<open>The relaxation\<close>

lemma bellman_ford_Cons:
  "bellman_ford s ((d, (nh, c)) # t) q = Inr q' \<Longrightarrow>
   (d = addr q \<and> bellman_ford s t q = Inr q') \<or>
   (d \<noteq> addr q \<and>
    (\<exists>n cs m cd. map_of (dv q) s = Some (n, cs) \<and> map_of (dv q) d = Some (m, cd) \<and>
       cs + c < cd \<and>
       bellman_ford s t (q\<lparr>dv := AList.update d (s, cs + c) (dv q), converged := 2\<rparr>) = Inr q')) \<or>
   (d \<noteq> addr q \<and>
    (\<exists>n cs m cd. map_of (dv q) s = Some (n, cs) \<and> map_of (dv q) d = Some (m, cd) \<and>
       \<not> cs + c < cd \<and> bellman_ford s t q = Inr q'))"
  by (auto simp: getitem_def split: if_splits option.splits)

lemma bellman_ford_addr: "bellman_ford s t q = Inr q' \<Longrightarrow> addr q' = addr q"
proof (induction t arbitrary: q)
  case Nil
  then show ?case by simp
next
  case (Cons x t)
  obtain d nh c where x: "x = (d, (nh, c))" by (cases x) auto
  from bellman_ford_Cons[OF Cons.prems[unfolded x]] Cons.IH show ?case
    by (auto split: if_splits)
qed

lemma bellman_ford_mono:
  "bellman_ford s t q = Inr q' \<Longrightarrow> map_of (dv q) k = Some (n, c) \<Longrightarrow>
   \<exists>n' c'. map_of (dv q') k = Some (n', c') \<and> c' \<le> c"
proof (induction t arbitrary: q n c)
  case Nil
  then show ?case by simp
next
  case (Cons x t)
  obtain d nh c0 where x: "x = (d, (nh, c0))" by (cases x) auto
  from bellman_ford_Cons[OF Cons.prems(1)[unfolded x]]
  consider (skip) "bellman_ford s t q = Inr q'"
    | (hit) n1 cs m cd where "map_of (dv q) s = Some (n1, cs)" "map_of (dv q) d = Some (m, cd)"
        "cs + c0 < cd"
        "bellman_ford s t (q\<lparr>dv := AList.update d (s, cs + c0) (dv q), converged := 2\<rparr>) = Inr q'"
    by (auto split: if_splits)
  then show ?case
  proof cases
    case skip
    from Cons.IH[OF skip Cons.prems(2)] show ?thesis .
  next
    case hit
    let ?q = "q\<lparr>dv := AList.update d (s, cs + c0) (dv q), converged := 2\<rparr>"
    show ?thesis
    proof (cases "k = d")
      case True
      have "map_of (dv ?q) k = Some (s, cs + c0)" by (simp add: True map_of_update)
      from Cons.IH[OF hit(4) this] obtain n' c' where
        "map_of (dv q') k = Some (n', c')" "c' \<le> cs + c0" by blast
      moreover have "cd = c" using hit(2) Cons.prems(2) True by simp
      ultimately show ?thesis using hit(3) by auto
    next
      case False
      have "map_of (dv ?q) k = Some (n, c)" using Cons.prems(2) False by (simp add: map_of_update)
      from Cons.IH[OF hit(4) this] show ?thesis .
    qed
  qed
qed

lemma bellman_ford_converged:
  "bellman_ford s t q = Inr q' \<Longrightarrow> converged q' \<noteq> converged q \<Longrightarrow>
   \<exists>k n c n' c'. k \<noteq> addr q \<and> k \<in> keys t \<and> map_of (dv q) k = Some (n, c) \<and>
      map_of (dv q') k = Some (n', c') \<and> c' < c"
proof (induction t arbitrary: q)
  case Nil
  then show ?case by simp
next
  case (Cons x t)
  obtain d nh c0 where x: "x = (d, (nh, c0))" by (cases x) auto
  from bellman_ford_Cons[OF Cons.prems(1)[unfolded x]]
  consider (skip) "bellman_ford s t q = Inr q'"
    | (hit) cs m cd where "d \<noteq> addr q" "map_of (dv q) d = Some (m, cd)"
        "cs + c0 < cd"
        "bellman_ford s t (q\<lparr>dv := AList.update d (s, cs + c0) (dv q), converged := 2\<rparr>) = Inr q'"
    by (auto split: if_splits)
  then show ?case
  proof cases
    case skip
    from Cons.IH[OF skip Cons.prems(2)] show ?thesis unfolding x by auto
  next
    case hit
    let ?q = "q\<lparr>dv := AList.update d (s, cs + c0) (dv q), converged := 2\<rparr>"
    have "map_of (dv ?q) d = Some (s, cs + c0)" by (simp add: map_of_update)
    from bellman_ford_mono[OF hit(4) this] obtain n' c' where
      "map_of (dv q') d = Some (n', c')" "c' \<le> cs + c0" by blast
    with hit(1,2,3) have
      "d \<noteq> addr q \<and> d \<in> keys (x # t) \<and> map_of (dv q) d = Some (m, cd) \<and>
       map_of (dv q') d = Some (n', c') \<and> c' < cd"
      unfolding x by simp
    then show ?thesis by blast
  qed
qed

lemma bellman_ford_append:
  "bellman_ford s (xs @ ys) q =
     (case bellman_ford s xs q of Inl e \<Rightarrow> Inl e | Inr q1 \<Rightarrow> bellman_ford s ys q1)"
proof (induction xs arbitrary: q)
  case Nil
  then show ?case by simp
next
  case (Cons x xs)
  obtain d nh c where x: "x = (d, (nh, c))" by (cases x) auto
  show ?case unfolding x
    by (simp add: Cons.IH split: sum.splits prod.splits)
qed

text \<open>The bounding pass over a dict with distinct keys, entry by entry.\<close>

lemma upper_bound_entries_closed:
  "distinct (map fst t) \<Longrightarrow> (\<forall>(k, v) \<in> set t. map_of d k = Some v) \<Longrightarrow>
   map_of (upper_bound_entries a t d) k =
     (case map_of t k of None \<Rightarrow> map_of d k | Some v \<Rightarrow> Some (bound_entry a k v))"
proof (induction t arbitrary: d)
  case Nil
  then show ?case by simp
next
  case (Cons x t)
  obtain k0 n0 c0 where x: "x = (k0, (n0, c0))" by (cases x) auto
  let ?d1 = "if c0 > inf_const then AList.update k0 (n0, inf_const) d else d"
  let ?d2 = "if k0 = a then AList.update k0 (k0, 0) ?d1 else ?d1"
  have step: "upper_bound_entries a (x # t) d = upper_bound_entries a t ?d2"
    unfolding x by (simp add: Let_def)
  have dk0: "map_of d k0 = Some (n0, c0)" using Cons.prems(2) unfolding x by simp
  have d2: "map_of ?d2 = (map_of d)(k0 \<mapsto> bound_entry a k0 (n0, c0))"
    using dk0 by (auto simp: map_of_update bound_entry_def fun_upd_idem)
  have notin: "k0 \<notin> keys t" using Cons.prems(1) unfolding x by simp
  have dist: "distinct (map fst t)" using Cons.prems(1) by simp
  have agree: "\<forall>(k, v) \<in> set t. map_of ?d2 k = Some v"
  proof (clarify)
    fix k n c assume m: "(k, (n, c)) \<in> set t"
    then have "k \<noteq> k0" using notin by force
    moreover from m Cons.prems(2) have "map_of d k = Some (n, c)" by auto
    ultimately show "map_of ?d2 k = Some (n, c)" unfolding d2 by simp
  qed
  have "map_of (upper_bound_entries a t ?d2) k =
          (case map_of t k of None \<Rightarrow> map_of ?d2 k | Some v \<Rightarrow> Some (bound_entry a k v))"
    by (rule Cons.IH[OF dist agree])
  also have "\<dots> = (case map_of (x # t) k of None \<Rightarrow> map_of d k
                      | Some v \<Rightarrow> Some (bound_entry a k v))"
  proof (cases "k = k0")
    case True
    have "map_of t k0 = None" using notin by (simp add: map_of_None_keys)
    then show ?thesis unfolding d2 x True by simp
  next
    case False
    then show ?thesis unfolding d2 x by (simp split: option.splits)
  qed
  finally show ?case unfolding step .
qed

lemma map_of_bound:
  "distinct (map fst (dv r)) \<Longrightarrow>
   map_of (dv (bound r)) k = map_option (bound_entry (addr r) k) (map_of (dv r) k)"
proof -
  assume d: "distinct (map fst (dv r))"
  then have "\<forall>(k, v) \<in> set (dv r). map_of (dv r) k = Some v" by auto
  from upper_bound_entries_closed[OF d this] show ?thesis
    by (simp add: bound_def split: option.splits)
qed

lemma distinct_upper_bound_entries:
  "distinct (map fst d) \<Longrightarrow> distinct (map fst (upper_bound_entries a t d))"
proof (induction t arbitrary: d)
  case Nil
  then show ?case by simp
next
  case (Cons x t)
  obtain k0 n0 c0 where x: "x = (k0, (n0, c0))" by (cases x) auto
  let ?d1 = "if c0 > inf_const then AList.update k0 (n0, inf_const) d else d"
  let ?d2 = "if k0 = a then AList.update k0 (k0, 0) ?d1 else ?d1"
  have "distinct (map fst ?d2)" using Cons.prems by (simp add: distinct_update)
  from Cons.IH[OF this] show ?case unfolding x by (simp add: Let_def)
qed

lemma distinct_bound: "distinct (map fst (dv r)) \<Longrightarrow> distinct (map fst (dv (bound r)))"
  by (simp add: bound_def distinct_upper_bound_entries)

lemma distinct_bellman_ford:
  "bellman_ford s t q = Inr q' \<Longrightarrow> distinct (map fst (dv q)) \<Longrightarrow> distinct (map fst (dv q'))"
proof (induction t arbitrary: q)
  case Nil
  then show ?case by simp
next
  case (Cons x t)
  obtain d nh c where x: "x = (d, (nh, c))" by (cases x) auto
  from bellman_ford_Cons[OF Cons.prems(1)[unfolded x]]
  consider (skip) "bellman_ford s t q = Inr q'"
    | (hit) cs where
        "bellman_ford s t (q\<lparr>dv := AList.update d (s, cs + c) (dv q), converged := 2\<rparr>) = Inr q'"
    by auto
  then show ?case
  proof cases
    case skip
    from Cons.IH[OF skip Cons.prems(2)] show ?thesis .
  next
    case hit
    have "distinct (map fst (dv (q\<lparr>dv := AList.update d (s, cs + c) (dv q), converged := 2\<rparr>)))"
      using Cons.prems(2) by (simp add: distinct_update)
    from Cons.IH[OF hit this] show ?thesis .
  qed
qed

lemma bound_entry_cost:
  "k \<noteq> a \<Longrightarrow> bound_entry a k (n, c) = (n', c') \<Longrightarrow> c' \<le> c \<and> c' \<le> inf_const"
  by (auto simp: bound_entry_def split: if_splits)

text \<open>A call that leaves the distance vector as it was leaves the counter as it was.\<close>

lemma update_dv_unchanged:
  assumes dist: "distinct (map fst (dv r))"
    and u: "update_dv r s t = Inr r'"
    and same: "dv r' = dv r"
  shows "converged r' = converged r"
proof (rule update_dv_phases[of s t r])
  fix r2 r4
  assume l: "add_new_entries s t (know_src s r) = Inr r2"
    and b: "bellman_ford s t (bound r2) = Inr r4"
    and u4: "update_dv r s t = Inr (bound r4)"
    and k2: "keys (dv r2) = insert s (keys (dv r)) \<union> keys t"
    and k4: "keys (dv r4) = keys (dv r2)"
  from u u4 have r': "r' = bound r4" by simp
  have k': "keys (dv r') = insert s (keys (dv r)) \<union> keys t"
    unfolding r' keys_bound k4 k2 ..
  have ks: "insert s (keys (dv r)) \<union> keys t = keys (dv r)"
    using k'[symmetric] unfolding same .
  have "s \<in> insert s (keys (dv r)) \<union> keys t" by simp
  then have sk: "s \<in> keys (dv r)" unfolding ks .
  have "keys t \<subseteq> insert s (keys (dv r)) \<union> keys t" by (rule Un_upper2)
  then have tk: "keys t \<subseteq> keys (dv r)" unfolding ks .
  have r2: "r2 = r"
    using l add_new_entries_known[OF tk, of s] unfolding know_src_known[OF sk] by simp
  have b': "bellman_ford s t (bound r) = Inr r4" using b unfolding r2 .
  have d3: "distinct (map fst (dv (bound r)))" by (rule distinct_bound[OF dist])
  have d4: "distinct (map fst (dv r4))" by (rule distinct_bellman_ford[OF b' d3])
  have a4: "addr r4 = addr r" using bellman_ford_addr[OF b'] by (simp add: addr_bound)
  have "converged r4 = converged (bound r)"
  proof (rule ccontr)
    assume "converged r4 \<noteq> converged (bound r)"
    from bellman_ford_converged[OF b' this] obtain k n c n' c' where
      ka: "k \<noteq> addr r" and m3: "map_of (dv (bound r)) k = Some (n, c)"
      and m4: "map_of (dv r4) k = Some (n', c')" and lt: "c' < c"
      by (auto simp: addr_bound)
    from m3 obtain n0 c0 where m0: "map_of (dv r) k = Some (n0, c0)"
      and b0: "bound_entry (addr r) k (n0, c0) = (n, c)"
      unfolding map_of_bound[OF dist] by auto
    obtain n5 c5 where b5: "bound_entry (addr r) k (n', c') = (n5, c5)"
      by (cases "bound_entry (addr r) k (n', c')") auto
    have "map_of (dv r') k = Some (n5, c5)"
      unfolding r' map_of_bound[OF d4] a4 using m4 b5 by simp
    then have "c5 = c0" unfolding same using m0 by simp
    moreover have "c5 \<le> c'" using bound_entry_cost[OF ka b5] by simp
    moreover have "c \<le> c0" using bound_entry_cost[OF ka b0] by simp
    ultimately show False using lt by simp
  qed
  then show ?thesis unfolding r' by (simp add: converged_bound r2)
qed

section \<open>Changing a link cost\<close>

lemma change_link_cost_known:
  "map_of (dv r) d = Some (next_hop, old_cost) \<Longrightarrow>
   change_link_cost r d cost =
     Inr (if cost < old_cost
          then r\<lparr>costs := AList.update d cost (costs r),
                 dv := AList.update d (d, cost) (dv r), converged := 2\<rparr>
          else r\<lparr>costs := AList.update d cost (costs r)\<rparr>)"
  by (simp add: change_link_cost_def Let_def getitem_def)

lemma change_link_cost_addr: "change_link_cost r d cost = Inr r' \<Longrightarrow> addr r' = addr r"
  by (auto simp: change_link_cost_def Let_def getitem_def split: if_splits option.splits)

lemma reset_knows_neighbours: "keys (dv (reset r)) = keys (costs r)"
  by (force simp: reset_def)

section \<open>Routers in the network\<close>

lemma get_router_addr: "get_router a net = Some r \<Longrightarrow> addr r = a"
  by (auto simp: get_router_def dest: find_Some_iff[THEN iffD1])

lemma get_router_mem: "get_router a net = Some r \<Longrightarrow> r \<in> set (routers net)"
  by (auto simp: get_router_def find_Some_iff)

lemma find_map_replace:
  "find (\<lambda>r. addr r = a) rs = Some r \<Longrightarrow> addr r' = a \<Longrightarrow>
   find (\<lambda>r. addr r = a) (map (\<lambda>r. if addr r = a then r' else r) rs) = Some r'"
  by (induction rs) (auto split: if_splits)

lemma get_router_set_router:
  "get_router a net = Some r \<Longrightarrow> addr r' = a \<Longrightarrow> get_router a (set_router r' net) = Some r'"
  by (simp add: get_router_def set_router_def find_map_replace)

lemma get_router_print [simp]: "get_router a (print e net) = get_router a net"
  by (simp add: get_router_def print_def)

lemma routers_print [simp]: "routers (print e net) = routers net"
  by (simp add: print_def)

section \<open>Dropping a packet\<close>

text \<open>
  Claim C9, as the code has it. \<^verbatim>\<open>route\<close> tests \<^verbatim>\<open>packet.dst == self.addr\<close> first, so
  a packet for the router itself is read even when the router has no self entry (as after
  construction). For a packet whose destination is another address and is absent from the
  distance vector, the router prints the drop line, puts the packet on no queue, changes no
  router, raises nothing and goes on with the rest of its queue.
\<close>

theorem route_drops_unknown_destination:
  assumes "get_router a net = Some r"
    and "in_queue r = p # rest"
    and "dst p \<noteq> a"
    and "map_of (dv r) (dst p) = None"
  shows "route_packet a p (set_router (r\<lparr>in_queue := rest\<rparr>) net) =
           Inr (print (Dropped a (src p) (dst p)) (set_router (r\<lparr>in_queue := rest\<rparr>) net))
         \<and> routers (print (Dropped a (src p) (dst p)) (set_router (r\<lparr>in_queue := rest\<rparr>) net)) =
             routers (set_router (r\<lparr>in_queue := rest\<rparr>) net)
         \<and> route a net =
             route a (print (Dropped a (src p) (dst p)) (set_router (r\<lparr>in_queue := rest\<rparr>) net))"
proof -
  let ?net = "set_router (r\<lparr>in_queue := rest\<rparr>) net"
  have a: "addr r = a" using assms(1) by (rule get_router_addr)
  have g: "get_router a ?net = Some (r\<lparr>in_queue := rest\<rparr>)"
    using assms(1) a by (simp add: get_router_set_router)
  have rp: "route_packet a p ?net = Inr (print (Dropped a (src p) (dst p)) ?net)"
    using assms(3,4) a by (simp add: route_packet_def g)
  have "route a net = route a (print (Dropped a (src p) (dst p)) ?net)"
    by (subst route.simps) (simp add: assms(1,2) rp)
  with rp show ?thesis by simp
qed

theorem route_drops_unknown_destination_witness:
  "route ''A'' \<lparr>routers = [\<lparr>addr = ''A'', costs = [(''B'', 1)], dv = [(''B'', (''B'', 1))],
                            converged = 2,
                            in_queue = [HTTPPacket ''A'' ''Z'' ''hi'', HTTPPacket ''A'' ''A'' ''ho''],
                            out_queues = [''B'']\<rparr>], printed = []\<rparr>
   = Some (Inr \<lparr>routers = [\<lparr>addr = ''A'', costs = [(''B'', 1)], dv = [(''B'', (''B'', 1))],
                            converged = 2, in_queue = [], out_queues = [''B'']\<rparr>],
                printed = [Dropped ''A'' ''A'' ''Z'', ReceivedMessage ''A'' ''A'' ''ho'']\<rparr>)"
proof -
  let ?r = "\<lparr>addr = ''A'', costs = [(''B'', 1)], dv = [(''B'', (''B'', 1))], converged = 2,
             in_queue = [HTTPPacket ''A'' ''Z'' ''hi'', HTTPPacket ''A'' ''A'' ''ho''],
             out_queues = [''B'']\<rparr>"
  let ?net = "\<lparr>routers = [?r], printed = []\<rparr>"
  have 1: "get_router ''A'' ?net = Some ?r" by (simp add: get_router_def)
  have 2: "in_queue ?r = HTTPPacket ''A'' ''Z'' ''hi'' # [HTTPPacket ''A'' ''A'' ''ho'']" by simp
  have 3: "dst (HTTPPacket ''A'' ''Z'' ''hi'') \<noteq> ''A''" by simp
  have 4: "map_of (dv ?r) (dst (HTTPPacket ''A'' ''Z'' ''hi'')) = None" by simp
  have 5: "route ''A'' (print (Dropped ''A'' (src (HTTPPacket ''A'' ''Z'' ''hi''))
                              (dst (HTTPPacket ''A'' ''Z'' ''hi'')))
             (set_router (?r\<lparr>in_queue := [HTTPPacket ''A'' ''A'' ''ho'']\<rparr>) ?net))
     = Some (Inr \<lparr>routers = [\<lparr>addr = ''A'', costs = [(''B'', 1)], dv = [(''B'', (''B'', 1))],
                            converged = 2, in_queue = [], out_queues = [''B'']\<rparr>],
                printed = [Dropped ''A'' ''A'' ''Z'', ReceivedMessage ''A'' ''A'' ''ho'']\<rparr>)"
    by code_simp
  from route_drops_unknown_destination[OF 1 2 3 4] 5 show ?thesis by simp
qed

text \<open>
  The claim as stated fails for a packet addressed to the router itself: right after
  construction router \<open>A\<close> of \<^verbatim>\<open>A B 1\<close>, \<^verbatim>\<open>B A 1\<close> has no entry for \<open>A\<close>, and a message
  from \<open>A\<close> to \<open>A\<close> is delivered, not dropped.
\<close>

theorem drop_counterexample:
  "send_message ''A'' ''A'' ''hi'' (Network [''A'', ''B''] [(''A'', ''B'', 1), (''B'', ''A'', 1)])
     = Inr \<lparr>routers =
              [\<lparr>addr = ''A'', costs = [(''B'', 1)], dv = [(''B'', (''B'', 1))], converged = 2,
                in_queue = [HTTPPacket ''A'' ''A'' ''hi''], out_queues = [''B'']\<rparr>,
               \<lparr>addr = ''B'', costs = [(''A'', 1)], dv = [(''A'', (''A'', 1))], converged = 2,
                in_queue = [], out_queues = [''A'']\<rparr>],
            printed = []\<rparr>
   \<and> map_of [(''B'', (''B'', 1 :: int))] (dst (HTTPPacket ''A'' ''A'' ''hi'')) = None
   \<and> route ''A'' \<lparr>routers =
              [\<lparr>addr = ''A'', costs = [(''B'', 1)], dv = [(''B'', (''B'', 1))], converged = 2,
                in_queue = [HTTPPacket ''A'' ''A'' ''hi''], out_queues = [''B'']\<rparr>,
               \<lparr>addr = ''B'', costs = [(''A'', 1)], dv = [(''A'', (''A'', 1))], converged = 2,
                in_queue = [], out_queues = [''A'']\<rparr>],
            printed = []\<rparr>
     = Some (Inr \<lparr>routers =
              [\<lparr>addr = ''A'', costs = [(''B'', 1)], dv = [(''B'', (''B'', 1))], converged = 2,
                in_queue = [], out_queues = [''B'']\<rparr>,
               \<lparr>addr = ''B'', costs = [(''A'', 1)], dv = [(''A'', (''A'', 1))], converged = 2,
                in_queue = [], out_queues = [''A'']\<rparr>],
            printed = [ReceivedMessage ''A'' ''A'' ''hi'']\<rparr>)"
  by code_simp

section \<open>What a queued distance-vector packet carries\<close>

text \<open>
  Claim C7 says that the receiver applies the sender's vector as it was when the packet was
  enqueued. The packet holds the sender's dict itself (\<^verbatim>\<open>dv=self.dv\<close>, no copy), so the
  receiver applies the vector as it is when the packet is processed. Topology \<^verbatim>\<open>A B 1\<close>,
  \<^verbatim>\<open>B A 1\<close>, \<^verbatim>\<open>A C 5\<close>: all routers send (\<open>A\<close> advertises \<open>C\<close> at 5), then \<open>A\<close>'s link cost to
  \<open>C\<close> is changed to 2, then all routers route. \<open>B\<close> learns \<open>C\<close> at \<open>1 + 2 = 3\<close>, not at
  \<open>1 + 5 = 6\<close>.
\<close>

theorem dv_packet_is_not_a_snapshot:
  "Network_send_dv (Network [''A'', ''B'', ''C''] [(''A'', ''B'', 1), (''B'', ''A'', 1), (''A'', ''C'', 5)])
     = \<lparr>routers =
          [\<lparr>addr = ''A'', costs = [(''B'', 1), (''C'', 5)],
            dv = [(''B'', (''B'', 1)), (''C'', (''C'', 5))], converged = 1,
            in_queue = [DVPacket ''B'' ''A'' ''B''], out_queues = [''B'', ''C'']\<rparr>,
           \<lparr>addr = ''B'', costs = [(''A'', 1)], dv = [(''A'', (''A'', 1))], converged = 1,
            in_queue = [DVPacket ''A'' ''B'' ''A''], out_queues = [''A'']\<rparr>,
           \<lparr>addr = ''C'', costs = [], dv = [], converged = 1,
            in_queue = [DVPacket ''A'' ''C'' ''A''], out_queues = []\<rparr>],
        printed = []\<rparr>
   \<and> Network_change_link_cost ''A'' ''C'' 2
       \<lparr>routers =
          [\<lparr>addr = ''A'', costs = [(''B'', 1), (''C'', 5)],
            dv = [(''B'', (''B'', 1)), (''C'', (''C'', 5))], converged = 1,
            in_queue = [DVPacket ''B'' ''A'' ''B''], out_queues = [''B'', ''C'']\<rparr>,
           \<lparr>addr = ''B'', costs = [(''A'', 1)], dv = [(''A'', (''A'', 1))], converged = 1,
            in_queue = [DVPacket ''A'' ''B'' ''A''], out_queues = [''A'']\<rparr>,
           \<lparr>addr = ''C'', costs = [], dv = [], converged = 1,
            in_queue = [DVPacket ''A'' ''C'' ''A''], out_queues = []\<rparr>],
        printed = []\<rparr>
     = Inr \<lparr>routers =
          [\<lparr>addr = ''A'', costs = [(''B'', 1), (''C'', 2)],
            dv = [(''B'', (''B'', 1)), (''C'', (''C'', 2))], converged = 2,
            in_queue = [DVPacket ''B'' ''A'' ''B''], out_queues = [''B'', ''C'']\<rparr>,
           \<lparr>addr = ''B'', costs = [(''A'', 1)], dv = [(''A'', (''A'', 1))], converged = 1,
            in_queue = [DVPacket ''A'' ''B'' ''A''], out_queues = [''A'']\<rparr>,
           \<lparr>addr = ''C'', costs = [], dv = [], converged = 1,
            in_queue = [DVPacket ''A'' ''C'' ''A''], out_queues = []\<rparr>],
        printed = []\<rparr>
   \<and> Network_route
       \<lparr>routers =
          [\<lparr>addr = ''A'', costs = [(''B'', 1), (''C'', 2)],
            dv = [(''B'', (''B'', 1)), (''C'', (''C'', 2))], converged = 2,
            in_queue = [DVPacket ''B'' ''A'' ''B''], out_queues = [''B'', ''C'']\<rparr>,
           \<lparr>addr = ''B'', costs = [(''A'', 1)], dv = [(''A'', (''A'', 1))], converged = 1,
            in_queue = [DVPacket ''A'' ''B'' ''A''], out_queues = [''A'']\<rparr>,
           \<lparr>addr = ''C'', costs = [], dv = [], converged = 1,
            in_queue = [DVPacket ''A'' ''C'' ''A''], out_queues = []\<rparr>],
        printed = []\<rparr>
     = Some (Inr \<lparr>routers =
          [\<lparr>addr = ''A'', costs = [(''B'', 1), (''C'', 2)],
            dv = [(''B'', (''B'', 1)), (''C'', (''C'', 2)), (''A'', (''A'', 0))], converged = 2,
            in_queue = [], out_queues = [''B'', ''C'']\<rparr>,
           \<lparr>addr = ''B'', costs = [(''A'', 1)],
            dv = [(''A'', (''A'', 1)), (''B'', (''B'', 0)), (''C'', (''C'', 3))], converged = 2,
            in_queue = [], out_queues = [''A'']\<rparr>,
           \<lparr>addr = ''C'', costs = [],
            dv = [(''A'', (''A'', 16)), (''B'', (''B'', 16)), (''C'', (''C'', 0))], converged = 2,
            in_queue = [], out_queues = []\<rparr>],
        printed = [ReceivedDV ''A'' ''B'', ReceivedDV ''B'' ''A'', ReceivedDV ''C'' ''A'']\<rparr>)"
  by code_simp

section \<open>A stable network\<close>

lemma distinct_addr_eq:
  "distinct (map addr rs) \<Longrightarrow> x \<in> set rs \<Longrightarrow> y \<in> set rs \<Longrightarrow> addr x = addr y \<Longrightarrow> x = y"
  by (auto simp: distinct_map inj_on_def)

lemma addrs_tables: "map addr (routers net) = map fst (tables net)"
  by (simp add: tables_def)

lemma tables_print [simp]: "tables (print e net) = tables net"
  by (simp add: tables_def)

lemma tables_put [simp]: "tables (put a p net) = tables net"
  by (simp add: tables_def put_def)

lemma tables_set_router:
  assumes "distinct (map addr (routers net))" and "get_router a net = Some r"
    and "addr r' = addr r" and "dv r' = dv r" and "converged r' = converged r"
  shows "tables (set_router r' net) = tables net"
proof -
  have rin: "r \<in> set (routers net)" using assms(2) by (rule get_router_mem)
  have "\<And>x. x \<in> set (routers net) \<Longrightarrow>
        (\<lambda>r. (addr r, dv r, converged r)) (if addr x = addr r' then r' else x) =
        (\<lambda>r. (addr r, dv r, converged r)) x"
  proof -
    fix x assume x: "x \<in> set (routers net)"
    show "(\<lambda>r. (addr r, dv r, converged r)) (if addr x = addr r' then r' else x) =
        (\<lambda>r. (addr r, dv r, converged r)) x"
    proof (cases "addr x = addr r'")
      case True
      then have "x = r" using distinct_addr_eq[OF assms(1) x rin] assms(3) by simp
      with True assms(3,4,5) show ?thesis by simp
    next
      case False
      then show ?thesis by simp
    qed
  qed
  then show ?thesis by (simp add: tables_def set_router_def)
qed

lemma no_dv_pending_print [simp]: "no_dv_pending (print e net) = no_dv_pending net"
  by (simp add: no_dv_pending_def)

lemma no_dv_pending_put:
  "no_dv_pending net \<Longrightarrow> \<not> is_dv p \<Longrightarrow> no_dv_pending (put a p net)"
  by (auto simp: no_dv_pending_def put_def list_all_iff)

lemma no_dv_pending_set_router:
  "no_dv_pending net \<Longrightarrow> list_all (\<lambda>p. \<not> is_dv p) (in_queue r') \<Longrightarrow>
   no_dv_pending (set_router r' net)"
  by (auto simp: no_dv_pending_def set_router_def list_all_iff)

lemma no_dv_pending_queue:
  "no_dv_pending net \<Longrightarrow> get_router a net = Some r \<Longrightarrow> list_all (\<lambda>p. \<not> is_dv p) (in_queue r)"
  by (auto simp: no_dv_pending_def list_all_iff dest: get_router_mem)

text \<open>Routing a packet that is not a distance-vector packet changes no routing state.\<close>

lemma route_packet_no_dv:
  assumes "route_packet a p net = Inr net'" and "\<not> is_dv p" and "no_dv_pending net"
  shows "tables net' = tables net \<and> no_dv_pending net'"
proof (cases "get_router a net")
  case None
  with assms(1) show ?thesis by (simp add: route_packet_def)
next
  case (Some r)
  show ?thesis
  proof (cases "dst p = addr r")
    case True
    with assms Some show ?thesis
      by (cases p) (auto simp: route_packet_def read_packet_def)
  next
    case False
    note ndst = this
    show ?thesis
    proof (cases "map_of (dv r) (dst p) = None")
      case True
      with assms Some ndst show ?thesis by (auto simp: route_packet_def)
    next
      case False
      then obtain nh c where m: "map_of (dv r) (dst p) = Some (nh, c)" by auto
      with assms(1) Some ndst have "net' = print (Forwarding a nh) (put nh p net)"
        by (auto simp: route_packet_def getitem_def split: if_splits)
      with assms(2,3) show ?thesis by (simp add: no_dv_pending_put)
    qed
  qed
qed

lemma route_no_dv:
  "route a net = Some y \<Longrightarrow>
   distinct (map addr (routers net)) \<longrightarrow> no_dv_pending net \<longrightarrow>
   (\<forall>net'. y = Inr net' \<longrightarrow> tables net' = tables net \<and> no_dv_pending net')"
proof (induction rule: route.raw_induct[rotated 1, consumes 1])
  case (1 route a net y)
  show ?case
  proof (intro impI allI)
    fix net'
    assume dist: "distinct (map addr (routers net))" and nodv: "no_dv_pending net"
      and y: "y = Inr net'"
    show "tables net' = tables net \<and> no_dv_pending net'"
    proof (cases "get_router a net")
      case None
      with 1(2) y show ?thesis by simp
    next
      case (Some r)
      show ?thesis
      proof (cases "in_queue r")
        case Nil
        with 1(2) Some y nodv show ?thesis by simp
      next
        case (Cons p rest)
        let ?net1 = "set_router (r\<lparr>in_queue := rest\<rparr>) net"
        have q: "list_all (\<lambda>p. \<not> is_dv p) (in_queue r)"
          using nodv Some by (rule no_dv_pending_queue)
        then have p: "\<not> is_dv p" and rest: "list_all (\<lambda>p. \<not> is_dv p) rest"
          unfolding Cons by simp_all
        have t1: "tables ?net1 = tables net"
          by (rule tables_set_router[OF dist Some]) simp_all
        have n1: "no_dv_pending ?net1"
          by (rule no_dv_pending_set_router[OF nodv]) (simp add: rest)
        from 1(2) Some Cons y obtain net2 where
          rp: "route_packet a p ?net1 = Inr net2" and r2: "route a net2 = Some y"
          by (auto split: sum.splits)
        from route_packet_no_dv[OF rp p n1] have
          t2: "tables net2 = tables net" and n2: "no_dv_pending net2"
          by (simp_all add: t1)
        have d2: "distinct (map addr (routers net2))"
          using dist unfolding addrs_tables t2 .
        from 1(1)[OF r2] d2 n2 y have "tables net' = tables net2 \<and> no_dv_pending net'"
          by blast
        then show ?thesis by (simp add: t2)
      qed
    qed
  qed
qed

lemma route_each_no_dv:
  "route_each as net = Some (Inr net') \<Longrightarrow> distinct (map addr (routers net)) \<Longrightarrow>
   no_dv_pending net \<Longrightarrow> tables net' = tables net \<and> no_dv_pending net'"
proof (induction as arbitrary: net)
  case Nil
  then show ?case by simp
next
  case (Cons a as)
  from Cons.prems(1) obtain net1 where
    r: "route a net = Some (Inr net1)" and e: "route_each as net1 = Some (Inr net')"
    by (auto split: option.splits sum.splits)
  from route_no_dv[OF r] Cons.prems(2,3) have
    t1: "tables net1 = tables net" and n1: "no_dv_pending net1" by blast+
  have d1: "distinct (map addr (routers net1))"
    using Cons.prems(2) unfolding addrs_tables t1 .
  from Cons.IH[OF e d1 n1] show ?case by (simp add: t1)
qed

lemma send_dv_stable: "is_stable net \<Longrightarrow> send_dv a net = net"
  by (cases "get_router a net")
     (auto simp: send_dv_def is_stable_def list_all_iff dest: get_router_mem)

lemma fold_send_dv_stable: "is_stable net \<Longrightarrow> fold send_dv as net = net"
  by (induction as) (simp_all add: send_dv_stable)

lemma Network_send_dv_stable: "is_stable net \<Longrightarrow> Network_send_dv net = net"
  by (simp add: Network_send_dv_def fold_send_dv_stable)

lemma is_stable_tables: "is_stable net \<longleftrightarrow> list_all (\<lambda>(a, d, c). c = 0) (tables net)"
  by (simp add: is_stable_def tables_def list_all_iff)

lemma dv_tables: "map dv (routers net) = map (\<lambda>(a, d, c). d) (tables net)"
  by (simp add: tables_def)

text \<open>
  Claim C2, as the code has it. The counter is stepped down by \<^verbatim>\<open>send_dv\<close>, whether or not
  the router has routed in between; so \<^verbatim>\<open>is_stable\<close> can hold while distance-vector
  packets are still queued. When \<^verbatim>\<open>is_stable\<close> holds and no queue holds a distance-vector
  packet, a further \<^verbatim>\<open>step\<close> leaves every distance vector unchanged, and the network
  stable.
\<close>

theorem stable_step_changes_nothing:
  assumes "distinct (map addr (routers net))"
    and "is_stable net"
    and "no_dv_pending net"
    and "step net = Some (Inr net')"
  shows "map dv (routers net') = map dv (routers net) \<and> is_stable net'"
proof -
  have "route_each (map addr (routers net)) net = Some (Inr net')"
    using assms(4) by (simp add: step_def Network_route_def Network_send_dv_stable[OF assms(2)])
  from route_each_no_dv[OF this assms(1,3)] have "tables net' = tables net" by simp
  then show ?thesis using assms(2) by (simp add: dv_tables is_stable_tables)
qed

theorem stable_step_changes_nothing_witness:
  "step \<lparr>routers =
          [\<lparr>addr = ''A'', costs = [(''B'', 1)], dv = [(''B'', (''B'', 1)), (''A'', (''A'', 0))],
            converged = 0, in_queue = [HTTPPacket ''A'' ''B'' ''hi''], out_queues = [''B'']\<rparr>,
           \<lparr>addr = ''B'', costs = [(''A'', 1)], dv = [(''A'', (''A'', 1)), (''B'', (''B'', 0))],
            converged = 0, in_queue = [], out_queues = [''A'']\<rparr>],
        printed = []\<rparr>
   = Some (Inr \<lparr>routers =
          [\<lparr>addr = ''A'', costs = [(''B'', 1)], dv = [(''B'', (''B'', 1)), (''A'', (''A'', 0))],
            converged = 0, in_queue = [], out_queues = [''B'']\<rparr>,
           \<lparr>addr = ''B'', costs = [(''A'', 1)], dv = [(''A'', (''A'', 1)), (''B'', (''B'', 0))],
            converged = 0, in_queue = [], out_queues = [''A'']\<rparr>],
        printed = [Forwarding ''A'' ''B'', ReceivedMessage ''B'' ''A'' ''hi'']\<rparr>)
   \<and> is_stable \<lparr>routers =
          [\<lparr>addr = ''A'', costs = [(''B'', 1)], dv = [(''B'', (''B'', 1)), (''A'', (''A'', 0))],
            converged = 0, in_queue = [], out_queues = [''B'']\<rparr>,
           \<lparr>addr = ''B'', costs = [(''A'', 1)], dv = [(''A'', (''A'', 1)), (''B'', (''B'', 0))],
            converged = 0, in_queue = [], out_queues = [''A'']\<rparr>],
        printed = [Forwarding ''A'' ''B'', ReceivedMessage ''B'' ''A'' ''hi'']\<rparr>"
proof -
  let ?net = "\<lparr>routers =
          [\<lparr>addr = ''A'', costs = [(''B'', 1)], dv = [(''B'', (''B'', 1)), (''A'', (''A'', 0))],
            converged = 0, in_queue = [HTTPPacket ''A'' ''B'' ''hi''], out_queues = [''B'']\<rparr>,
           \<lparr>addr = ''B'', costs = [(''A'', 1)], dv = [(''A'', (''A'', 1)), (''B'', (''B'', 0))],
            converged = 0, in_queue = [], out_queues = [''A'']\<rparr>],
        printed = []\<rparr>"
  let ?net' = "\<lparr>routers =
          [\<lparr>addr = ''A'', costs = [(''B'', 1)], dv = [(''B'', (''B'', 1)), (''A'', (''A'', 0))],
            converged = 0, in_queue = [], out_queues = [''B'']\<rparr>,
           \<lparr>addr = ''B'', costs = [(''A'', 1)], dv = [(''A'', (''A'', 1)), (''B'', (''B'', 0))],
            converged = 0, in_queue = [], out_queues = [''A'']\<rparr>],
        printed = [Forwarding ''A'' ''B'', ReceivedMessage ''B'' ''A'' ''hi'']\<rparr>"
  have 1: "distinct (map addr (routers ?net))" by simp
  have 2: "is_stable ?net" by (simp add: is_stable_def)
  have 3: "no_dv_pending ?net" by (simp add: no_dv_pending_def)
  have 4: "step ?net = Some (Inr ?net')" by code_simp
  from stable_step_changes_nothing[OF 1 2 3 4] 4 show ?thesis by simp
qed

text \<open>
  The claim as stated fails when \<^verbatim>\<open>send_dv\<close> and \<^verbatim>\<open>route\<close> are called separately. After
  construction from \<^verbatim>\<open>A B 1\<close>, \<^verbatim>\<open>B A 1\<close>, two calls of \<^verbatim>\<open>Network.send_dv\<close> bring every
  counter to 0 with the packets still queued; \<^verbatim>\<open>is_stable\<close> holds, and the next \<^verbatim>\<open>step\<close>
  adds a self entry to both distance vectors.
\<close>

theorem stable_step_counterexample:
  "Network_send_dv (Network_send_dv (Network [''A'', ''B''] [(''A'', ''B'', 1), (''B'', ''A'', 1)]))
   = \<lparr>routers =
        [\<lparr>addr = ''A'', costs = [(''B'', 1)], dv = [(''B'', (''B'', 1))], converged = 0,
          in_queue = [DVPacket ''B'' ''A'' ''B'', DVPacket ''B'' ''A'' ''B''],
          out_queues = [''B'']\<rparr>,
         \<lparr>addr = ''B'', costs = [(''A'', 1)], dv = [(''A'', (''A'', 1))], converged = 0,
          in_queue = [DVPacket ''A'' ''B'' ''A'', DVPacket ''A'' ''B'' ''A''],
          out_queues = [''A'']\<rparr>],
      printed = []\<rparr>
   \<and> is_stable \<lparr>routers =
        [\<lparr>addr = ''A'', costs = [(''B'', 1)], dv = [(''B'', (''B'', 1))], converged = 0,
          in_queue = [DVPacket ''B'' ''A'' ''B'', DVPacket ''B'' ''A'' ''B''],
          out_queues = [''B'']\<rparr>,
         \<lparr>addr = ''B'', costs = [(''A'', 1)], dv = [(''A'', (''A'', 1))], converged = 0,
          in_queue = [DVPacket ''A'' ''B'' ''A'', DVPacket ''A'' ''B'' ''A''],
          out_queues = [''A'']\<rparr>],
      printed = []\<rparr>
   \<and> step \<lparr>routers =
        [\<lparr>addr = ''A'', costs = [(''B'', 1)], dv = [(''B'', (''B'', 1))], converged = 0,
          in_queue = [DVPacket ''B'' ''A'' ''B'', DVPacket ''B'' ''A'' ''B''],
          out_queues = [''B'']\<rparr>,
         \<lparr>addr = ''B'', costs = [(''A'', 1)], dv = [(''A'', (''A'', 1))], converged = 0,
          in_queue = [DVPacket ''A'' ''B'' ''A'', DVPacket ''A'' ''B'' ''A''],
          out_queues = [''A'']\<rparr>],
      printed = []\<rparr>
     = Some (Inr \<lparr>routers =
        [\<lparr>addr = ''A'', costs = [(''B'', 1)], dv = [(''B'', (''B'', 1)), (''A'', (''A'', 0))],
          converged = 2, in_queue = [], out_queues = [''B'']\<rparr>,
         \<lparr>addr = ''B'', costs = [(''A'', 1)], dv = [(''A'', (''A'', 1)), (''B'', (''B'', 0))],
          converged = 2, in_queue = [], out_queues = [''A'']\<rparr>],
      printed = [ReceivedDV ''A'' ''B'', ReceivedDV ''A'' ''B'',
                 ReceivedDV ''B'' ''A'', ReceivedDV ''B'' ''A'']\<rparr>)"
  by code_simp

section \<open>The potential of a router\<close>

lemma cost_okD: "cost_ok d \<Longrightarrow> map_of d k = Some (nh, c) \<Longrightarrow> 0 \<le> c"
  by (auto simp: cost_ok_def list_all_iff dest: map_of_SomeD)

lemma cost_okI: "(\<And>k nh c. (k, (nh, c)) \<in> set d \<Longrightarrow> 0 \<le> c) \<Longrightarrow> cost_ok d"
  by (auto simp: cost_ok_def list_all_iff)

lemma cost_ok_mem: "cost_ok d \<Longrightarrow> (k, (nh, c)) \<in> set d \<Longrightarrow> 0 \<le> c"
  by (auto simp: cost_ok_def list_all_iff)

lemma set_update_subset: "set (AList.update k v d) \<subseteq> insert (k, v) (set d)"
  by (induction d) auto

lemma cost_ok_update: "cost_ok d \<Longrightarrow> 0 \<le> c \<Longrightarrow> cost_ok (AList.update k (nh, c) d)"
proof (rule cost_okI)
  fix k' nh' c'
  assume ok: "cost_ok d" and c: "0 \<le> c" and m: "(k', (nh', c')) \<in> set (AList.update k (nh, c) d)"
  from m set_update_subset[of k "(nh, c)" d]
  have "(k', (nh', c')) = (k, (nh, c)) \<or> (k', (nh', c')) \<in> set d" by auto
  then show "0 \<le> c'" using c cost_ok_mem[OF ok] by auto
qed

lemma weight_le: "weight d k \<le> 17"
  by (auto simp: weight_def inf_const_def split: option.splits)

lemma weight_None: "map_of d k = None \<Longrightarrow> weight d k = 17"
  by (simp add: weight_def)

lemma weight_Some: "map_of d k = Some (nh, c) \<Longrightarrow> weight d k = nat (min c inf_const)"
  by (simp add: weight_def)

lemma weight_known: "k \<in> keys d \<Longrightarrow> weight d k \<le> 16"
  by (cases "map_of d k") (auto simp: weight_def inf_const_def map_of_None_keys)

lemma weight_mono:
  assumes "\<And>n c. map_of d k = Some (n, c) \<Longrightarrow> \<exists>n' c'. map_of d' k = Some (n', c') \<and> c' \<le> c"
  shows "weight d' k \<le> weight d k"
proof (cases "map_of d k")
  case None
  then show ?thesis using weight_le[of d' k] by (simp add: weight_None)
next
  case (Some v)
  obtain n c where v: "v = (n, c)" by (cases v) auto
  from assms[OF Some[unfolded v]] obtain n' c' where
    m': "map_of d' k = Some (n', c')" and le: "c' \<le> c" by blast
  show ?thesis using le by (simp add: weight_Some[OF m'] weight_Some[OF Some[unfolded v]])
qed

subsection \<open>Inserting the neighbour\<close>

lemma map_of_know_src:
  "map_of (dv (know_src s r)) =
     (if map_of (dv r) s = None then (map_of (dv r))(s \<mapsto> (s, inf_const)) else map_of (dv r))"
  by (simp add: know_src_def map_of_update)

lemma distinct_know_src:
  "distinct (map fst (dv r)) \<Longrightarrow> distinct (map fst (dv (know_src s r)))"
  by (simp add: know_src_def distinct_update)

lemma cost_ok_know_src: "cost_ok (dv r) \<Longrightarrow> cost_ok (dv (know_src s r))"
  by (simp add: know_src_def cost_ok_update inf_const_def)

lemma weight_know_src: "weight (dv (know_src s r)) k \<le> weight (dv r) k"
  by (rule weight_mono) (auto simp: map_of_know_src)

lemma fields_know_src:
  "in_queue (know_src s r) = in_queue r" "out_queues (know_src s r) = out_queues r"
  by (simp_all add: know_src_def)

subsection \<open>Learning\<close>

lemma add_new_entries_Cons:
  "add_new_entries s ((d, (nh, c)) # t) r = Inr r' \<Longrightarrow>
   (map_of (dv r) d \<noteq> None \<and> add_new_entries s t r = Inr r') \<or>
   (map_of (dv r) d = None \<and>
    (\<exists>n cs. map_of (dv r) s = Some (n, cs) \<and>
       add_new_entries s t (r\<lparr>dv := AList.update d (nh, cs + c) (dv r), converged := 2\<rparr>) = Inr r'))"
  by (auto simp: getitem_def split: if_splits option.splits)

lemma add_new_entries_keeps:
  "add_new_entries s t r = Inr r' \<Longrightarrow> map_of (dv r) k = Some v \<Longrightarrow> map_of (dv r') k = Some v"
proof (induction t arbitrary: r)
  case Nil
  then show ?case by simp
next
  case (Cons x t)
  obtain d nh c where x: "x = (d, (nh, c))" by (cases x) auto
  from add_new_entries_Cons[OF Cons.prems(1)[unfolded x]]
  consider (known) "add_new_entries s t r = Inr r'"
    | (new) cs where "map_of (dv r) d = None"
        "add_new_entries s t (r\<lparr>dv := AList.update d (nh, cs + c) (dv r), converged := 2\<rparr>) = Inr r'"
    by auto
  then show ?case
  proof cases
    case known
    from Cons.IH[OF known Cons.prems(2)] show ?thesis .
  next
    case new
    have "k \<noteq> d" using new(1) Cons.prems(2) by auto
    then have "map_of (dv (r\<lparr>dv := AList.update d (nh, cs + c) (dv r), converged := 2\<rparr>)) k = Some v"
      using Cons.prems(2) by (simp add: map_of_update)
    from Cons.IH[OF new(2) this] show ?thesis .
  qed
qed

lemma add_new_entries_fields:
  "add_new_entries s t r = Inr r' \<Longrightarrow>
   addr r' = addr r \<and> in_queue r' = in_queue r \<and> out_queues r' = out_queues r \<and>
   (converged r' = converged r \<or> converged r' = 2) \<and>
   (distinct (map fst (dv r)) \<longrightarrow> distinct (map fst (dv r'))) \<and>
   (cost_ok (dv r) \<longrightarrow> cost_ok t \<longrightarrow> cost_ok (dv r'))"
proof (induction t arbitrary: r)
  case Nil
  then show ?case by simp
next
  case (Cons x t)
  obtain d nh c where x: "x = (d, (nh, c))" by (cases x) auto
  have ct: "cost_ok (x # t) \<Longrightarrow> cost_ok t \<and> 0 \<le> c"
    unfolding x by (simp add: cost_ok_def)
  from add_new_entries_Cons[OF Cons.prems(1)[unfolded x]]
  consider (known) "add_new_entries s t r = Inr r'"
    | (new) n cs where "map_of (dv r) s = Some (n, cs)"
        "add_new_entries s t (r\<lparr>dv := AList.update d (nh, cs + c) (dv r), converged := 2\<rparr>) = Inr r'"
    by auto
  then show ?case
  proof cases
    case known
    from Cons.IH[OF known] ct show ?thesis by blast
  next
    case new
    let ?r = "r\<lparr>dv := AList.update d (nh, cs + c) (dv r), converged := 2\<rparr>"
    have d: "distinct (map fst (dv r)) \<Longrightarrow> distinct (map fst (dv ?r))"
      by (simp add: distinct_update)
    have c: "cost_ok (dv r) \<Longrightarrow> cost_ok (x # t) \<Longrightarrow> cost_ok (dv ?r)"
    proof -
      assume ok: "cost_ok (dv r)" and okt: "cost_ok (x # t)"
      have "0 \<le> cs" using cost_okD[OF ok new(1)] .
      moreover have "0 \<le> c" using ct[OF okt] by simp
      ultimately show "cost_ok (dv ?r)" using ok by (simp add: cost_ok_update)
    qed
    from Cons.IH[OF new(2)] have
      ih: "addr r' = addr ?r \<and> in_queue r' = in_queue ?r \<and> out_queues r' = out_queues ?r \<and>
           (converged r' = converged ?r \<or> converged r' = 2) \<and>
           (distinct (map fst (dv ?r)) \<longrightarrow> distinct (map fst (dv r'))) \<and>
           (cost_ok (dv ?r) \<longrightarrow> cost_ok t \<longrightarrow> cost_ok (dv r'))" .
    show ?thesis
    proof (intro conjI impI)
      show "addr r' = addr r" using ih by simp
      show "in_queue r' = in_queue r" using ih by simp
      show "out_queues r' = out_queues r" using ih by simp
      show "converged r' = converged r \<or> converged r' = 2" using ih by simp
      show "distinct (map fst (dv r'))" if "distinct (map fst (dv r))"
        using ih d[OF that] by blast
      show "cost_ok (dv r')" if "cost_ok (dv r)" "cost_ok (x # t)"
        using ih c[OF that] ct[OF that(2)] by blast
    qed
  qed
qed

lemma weight_add_new_entries:
  "add_new_entries s t r = Inr r' \<Longrightarrow> weight (dv r') k \<le> weight (dv r) k"
  by (rule weight_mono) (auto dest: add_new_entries_keeps)

subsection \<open>Bounding\<close>

lemma weight_bound:
  assumes "distinct (map fst (dv r))"
  shows "weight (dv (bound r)) k \<le> weight (dv r) k"
proof (cases "map_of (dv r) k")
  case None
  then show ?thesis by (simp add: weight_def map_of_bound[OF assms])
next
  case (Some v)
  obtain n c where v: "v = (n, c)" by (cases v) auto
  show ?thesis
    using Some unfolding v
    by (auto simp: weight_def map_of_bound[OF assms] bound_entry_def inf_const_def)
qed

lemma cost_ok_bound:
  assumes "distinct (map fst (dv r))" and "cost_ok (dv r)"
  shows "cost_ok (dv (bound r))"
proof (rule cost_okI)
  fix k nh c
  assume "(k, (nh, c)) \<in> set (dv (bound r))"
  then have "map_of (dv (bound r)) k = Some (nh, c)"
    using distinct_bound[OF assms(1)] by simp
  then obtain n0 c0 where m: "map_of (dv r) k = Some (n0, c0)"
    and b: "bound_entry (addr r) k (n0, c0) = (nh, c)"
    unfolding map_of_bound[OF assms(1)] by auto
  have "0 \<le> c0" using cost_okD[OF assms(2) m] .
  with b show "0 \<le> c" by (auto simp: bound_entry_def inf_const_def split: if_splits)
qed

lemma fields_bound:
  "in_queue (bound r) = in_queue r" "out_queues (bound r) = out_queues r"
  by (simp_all add: bound_def)

subsection \<open>Relaxing\<close>

lemma bellman_ford_fields:
  "bellman_ford s t q = Inr q' \<Longrightarrow>
   in_queue q' = in_queue q \<and> out_queues q' = out_queues q \<and>
   (converged q' = converged q \<or> converged q' = 2) \<and>
   (cost_ok (dv q) \<longrightarrow> cost_ok t \<longrightarrow> cost_ok (dv q'))"
proof (induction t arbitrary: q)
  case Nil
  then show ?case by simp
next
  case (Cons x t)
  obtain d nh c where x: "x = (d, (nh, c))" by (cases x) auto
  have ct: "cost_ok (x # t) \<Longrightarrow> cost_ok t \<and> 0 \<le> c"
    unfolding x by (simp add: cost_ok_def)
  from bellman_ford_Cons[OF Cons.prems(1)[unfolded x]]
  consider (skip) "bellman_ford s t q = Inr q'"
    | (hit) n cs where "map_of (dv q) s = Some (n, cs)"
        "bellman_ford s t (q\<lparr>dv := AList.update d (s, cs + c) (dv q), converged := 2\<rparr>) = Inr q'"
    by auto
  then show ?case
  proof cases
    case skip
    from Cons.IH[OF skip] ct show ?thesis by blast
  next
    case hit
    let ?q = "q\<lparr>dv := AList.update d (s, cs + c) (dv q), converged := 2\<rparr>"
    have c: "cost_ok (dv q) \<Longrightarrow> cost_ok (x # t) \<Longrightarrow> cost_ok (dv ?q)"
    proof -
      assume ok: "cost_ok (dv q)" and okt: "cost_ok (x # t)"
      have "0 \<le> cs" using cost_okD[OF ok hit(1)] .
      moreover have "0 \<le> c" using ct[OF okt] by simp
      ultimately show "cost_ok (dv ?q)" using ok by (simp add: cost_ok_update)
    qed
    from Cons.IH[OF hit(2)] have
      ih: "in_queue q' = in_queue ?q \<and> out_queues q' = out_queues ?q \<and>
           (converged q' = converged ?q \<or> converged q' = 2) \<and>
           (cost_ok (dv ?q) \<longrightarrow> cost_ok t \<longrightarrow> cost_ok (dv q'))" .
    show ?thesis
    proof (intro conjI impI)
      show "in_queue q' = in_queue q" using ih by simp
      show "out_queues q' = out_queues q" using ih by simp
      show "converged q' = converged q \<or> converged q' = 2" using ih by simp
      show "cost_ok (dv q')" if "cost_ok (dv q)" "cost_ok (x # t)"
        using ih c[OF that] ct[OF that(2)] by blast
    qed
  qed
qed

lemma weight_bellman_ford:
  "bellman_ford s t q = Inr q' \<Longrightarrow> weight (dv q') k \<le> weight (dv q) k"
  by (rule weight_mono) (rule bellman_ford_mono)

subsection \<open>The whole update\<close>

lemma sum_list_strict:
  fixes f g :: "'a \<Rightarrow> nat"
  assumes "\<And>y. y \<in> set xs \<Longrightarrow> f y \<le> g y" and "x \<in> set xs" and "f x < g x"
  shows "sum_list (map f xs) < sum_list (map g xs)"
  using assms
proof (induction xs)
  case Nil
  then show ?case by simp
next
  case (Cons a xs)
  have le: "sum_list (map f xs) \<le> sum_list (map g xs)"
    by (rule sum_list_mono) (simp add: Cons.prems(1))
  have a: "f a \<le> g a" by (simp add: Cons.prems(1))
  show ?case
  proof (cases "x = a")
    case True
    with Cons.prems(3) le show ?thesis by simp
  next
    case False
    with Cons.prems(2) have "x \<in> set xs" by simp
    from Cons.IH[OF _ this Cons.prems(3)] Cons.prems(1)
    have "sum_list (map f xs) < sum_list (map g xs)" by simp
    with a show ?thesis by simp
  qed
qed

lemma update_dv_ok:
  assumes u: "update_dv r s t = Inr r'"
    and dist: "distinct (map fst (dv r))" and ok: "cost_ok (dv r)" and okt: "cost_ok t"
  shows "addr r' = addr r \<and> in_queue r' = in_queue r \<and> out_queues r' = out_queues r \<and>
         (converged r' = converged r \<or> converged r' = 2) \<and>
         distinct (map fst (dv r')) \<and> cost_ok (dv r') \<and>
         keys (dv r') = insert s (keys (dv r)) \<union> keys t \<and>
         (\<forall>k. weight (dv r') k \<le> weight (dv r) k) \<and>
         (converged r' \<noteq> converged r \<longrightarrow> (\<exists>k \<in> keys t. weight (dv r') k < weight (dv r) k))"
proof (rule update_dv_phases[of s t r])
  fix r2 r4
  assume l: "add_new_entries s t (know_src s r) = Inr r2"
    and b: "bellman_ford s t (bound r2) = Inr r4"
    and u4: "update_dv r s t = Inr (bound r4)"
    and a2: "addr r2 = addr r" and a4: "addr r4 = addr r"
    and k2: "keys (dv r2) = insert s (keys (dv r)) \<union> keys t"
    and k4: "keys (dv r4) = keys (dv r2)"
  from u u4 have r': "r' = bound r4" by simp
  let ?r1 = "know_src s r"
  let ?r3 = "bound r2"
  note f2 = add_new_entries_fields[OF l]
  note f4 = bellman_ford_fields[OF b]
  have d1: "distinct (map fst (dv ?r1))" by (rule distinct_know_src[OF dist])
  have c1: "cost_ok (dv ?r1)" by (rule cost_ok_know_src[OF ok])
  have d2: "distinct (map fst (dv r2))" using f2 d1 by blast
  have c2: "cost_ok (dv r2)" using f2 c1 okt by blast
  have d3: "distinct (map fst (dv ?r3))" by (rule distinct_bound[OF d2])
  have c3: "cost_ok (dv ?r3)" by (rule cost_ok_bound[OF d2 c2])
  have d4: "distinct (map fst (dv r4))" by (rule distinct_bellman_ford[OF b d3])
  have c4: "cost_ok (dv r4)" using f4 c3 okt by blast
  have d5: "distinct (map fst (dv r'))" unfolding r' by (rule distinct_bound[OF d4])
  have c5: "cost_ok (dv r')" unfolding r' by (rule cost_ok_bound[OF d4 c4])
  have k5: "keys (dv r') = insert s (keys (dv r)) \<union> keys t"
    unfolding r' keys_bound k4 k2 ..
  have w1: "weight (dv ?r1) k \<le> weight (dv r) k" for k by (rule weight_know_src)
  have w2: "weight (dv r2) k \<le> weight (dv ?r1) k" for k by (rule weight_add_new_entries[OF l])
  have w3: "weight (dv ?r3) k \<le> weight (dv r2) k" for k by (rule weight_bound[OF d2])
  have w4: "weight (dv r4) k \<le> weight (dv ?r3) k" for k by (rule weight_bellman_ford[OF b])
  have w5: "weight (dv r') k \<le> weight (dv r4) k" for k unfolding r' by (rule weight_bound[OF d4])
  have w: "weight (dv r') k \<le> weight (dv r) k" for k
    using w1[of k] w2[of k] w3[of k] w4[of k] w5[of k] by linarith
  have q: "in_queue r' = in_queue r" "out_queues r' = out_queues r"
    using f2 f4 unfolding r' by (simp_all add: fields_bound fields_know_src)
  have cv2: "converged r2 = converged r \<or> converged r2 = 2"
    using f2 by (simp add: converged_know_src)
  have cv4: "converged r4 = converged r2 \<or> converged r4 = 2"
    using f4 by (simp add: converged_bound)
  have cv5: "converged r' = converged r4" unfolding r' by (simp add: converged_bound)
  have cv: "converged r' = converged r \<or> converged r' = 2"
    using cv2 cv4 cv5 by auto
  have strict: "\<exists>k \<in> keys t. weight (dv r') k < weight (dv r) k" if ne: "converged r' \<noteq> converged r"
  proof (cases "converged r2 = converged ?r1")
    case False
    have "\<not> keys t \<subseteq> keys (dv ?r1)"
    proof
      assume "keys t \<subseteq> keys (dv ?r1)"
      from add_new_entries_known[OF this, of s] l have "r2 = ?r1" by simp
      with False show False by simp
    qed
    then obtain k where kt: "k \<in> keys t" and kn: "k \<notin> keys (dv ?r1)" by blast
    have "k \<notin> keys (dv r)" using kn by (simp add: keys_know_src)
    then have "weight (dv r) k = 17" by (simp add: weight_None map_of_None_keys)
    moreover have "k \<in> keys (dv r')" unfolding k5 using kt by simp
    then have "weight (dv r') k \<le> 16" by (rule weight_known)
    ultimately have "weight (dv r') k < weight (dv r) k" by simp
    with kt show ?thesis by blast
  next
    case True
    with ne cv5 have "converged r4 \<noteq> converged ?r3"
      by (simp add: converged_bound converged_know_src)
    from bellman_ford_converged[OF b this] obtain k n c n' c' where
      kt: "k \<in> keys t" and m3: "map_of (dv ?r3) k = Some (n, c)"
      and m4: "map_of (dv r4) k = Some (n', c')" and lt: "c' < c"
      by blast
    have "c \<le> inf_const" using m3 by (rule bound_le)
    moreover have "0 \<le> c'" using cost_okD[OF c4 m4] .
    ultimately have "weight (dv r4) k < weight (dv ?r3) k"
      using lt by (simp add: weight_Some[OF m3] weight_Some[OF m4] inf_const_def)
    with w1[of k] w2[of k] w3[of k] w5[of k] have "weight (dv r') k < weight (dv r) k"
      by linarith
    with kt show ?thesis by blast
  qed
  show ?thesis
    using a4 q cv d5 c5 k5 w strict unfolding r' by (simp add: addr_bound)
qed

lemma update_dv_potential:
  assumes u: "update_dv r s t = Inr r'"
    and dist: "distinct (map fst (dv r))" and ok: "cost_ok (dv r)" and okt: "cost_ok t"
    and sub: "keys t \<subseteq> set U"
  shows "potential U r' \<le> potential U r"
proof -
  note f = update_dv_ok[OF u dist ok okt]
  have le: "sum_list (map (weight (dv r')) U) \<le> sum_list (map (weight (dv r)) U)"
    by (rule sum_list_mono) (simp add: f)
  show ?thesis
  proof (cases "converged r' = converged r")
    case True
    with le show ?thesis by (simp add: potential_def)
  next
    case False
    with f obtain k where kt: "k \<in> keys t" and lt: "weight (dv r') k < weight (dv r) k"
      by blast
    have ku: "k \<in> set U" using kt sub by blast
    have "sum_list (map (weight (dv r')) U) < sum_list (map (weight (dv r)) U)"
      by (rule sum_list_strict[where x = k and f = "weight (dv r')" and g = "weight (dv r)"])
         (simp_all add: f ku lt)
    moreover have "converged r' = 2" using f False by blast
    ultimately show ?thesis by (simp add: potential_def)
  qed
qed

section \<open>The result of a distance-vector update, entry by entry\<close>

text \<open>
  The learning loop with the cost \<open>c_s\<close> of the advertising neighbour: a known key keeps
  its entry, an unknown advertised key gets the advertised next hop at \<open>c_s + cost\<close>, and
  the counter is set to 2 exactly when some advertised key was unknown.
\<close>

lemma add_new_entries_result:
  "map_of (dv r) s = Some (n_s, c_s) \<Longrightarrow> add_new_entries s t r = Inr r' \<Longrightarrow>
   map_of (dv r') k =
     (case map_of (dv r) k of
        Some v \<Rightarrow> Some v
      | None \<Rightarrow> map_option (\<lambda>(nh, c). (nh, c_s + c)) (map_of t k)) \<and>
   converged r' = (if keys t \<subseteq> keys (dv r) then converged r else 2)"
proof (induction t arbitrary: r)
  case Nil
  then show ?case by (simp split: option.splits)
next
  case (Cons x t)
  obtain d nh c where x: "x = (d, (nh, c))" by (cases x) auto
  from add_new_entries_Cons[OF Cons.prems(2)[unfolded x]] Cons.prems(1)
  consider (known) "map_of (dv r) d \<noteq> None" "add_new_entries s t r = Inr r'"
    | (new) "map_of (dv r) d = None"
        "add_new_entries s t (r\<lparr>dv := AList.update d (nh, c_s + c) (dv r), converged := 2\<rparr>) = Inr r'"
    by auto
  then show ?case
  proof cases
    case known
    from known(1) have dk: "d \<in> keys (dv r)" by (simp add: map_of_None_keys)
    from Cons.IH[OF Cons.prems(1) known(2)]
    have ih1: "map_of (dv r') k =
        (case map_of (dv r) k of Some v \<Rightarrow> Some v
         | None \<Rightarrow> map_option (\<lambda>(nh, c). (nh, c_s + c)) (map_of t k))"
      and ih2: "converged r' = (if keys t \<subseteq> keys (dv r) then converged r else 2)"
      by simp_all
    have a: "map_of (dv r') k =
        (case map_of (dv r) k of Some v \<Rightarrow> Some v
         | None \<Rightarrow> map_option (\<lambda>(nh, c). (nh, c_s + c)) (map_of (x # t) k))"
      unfolding ih1 x using known(1) by (cases "k = d") (auto split: option.splits)
    have b: "keys (x # t) \<subseteq> keys (dv r) \<longleftrightarrow> keys t \<subseteq> keys (dv r)"
      unfolding x using dk by simp
    have cv: "converged r' = (if keys (x # t) \<subseteq> keys (dv r) then converged r else 2)"
      unfolding b by (rule ih2)
    show ?thesis by (rule conjI[OF a cv])
  next
    case new
    let ?r = "r\<lparr>dv := AList.update d (nh, c_s + c) (dv r), converged := 2\<rparr>"
    have ds: "d \<noteq> s" using new(1) Cons.prems(1) by auto
    have s1: "map_of (dv ?r) s = Some (n_s, c_s)"
      using Cons.prems(1) ds by (simp add: map_of_update)
    from Cons.IH[OF s1 new(2)]
    have ih1: "map_of (dv r') k =
        (case map_of (dv ?r) k of Some v \<Rightarrow> Some v
         | None \<Rightarrow> map_option (\<lambda>(nh, c). (nh, c_s + c)) (map_of t k))"
      and ih2: "converged r' = (if keys t \<subseteq> keys (dv ?r) then converged ?r else 2)"
      by simp_all
    have c2: "converged r' = 2" using ih2 by (simp split: if_splits)
    have nk: "d \<notin> keys (dv r)" using new(1) by (simp add: map_of_None_keys)
    have b: "\<not> keys (x # t) \<subseteq> keys (dv r)" unfolding x using nk by simp
    have a: "map_of (dv r') k =
        (case map_of (dv r) k of Some v \<Rightarrow> Some v
         | None \<Rightarrow> map_option (\<lambda>(nh, c). (nh, c_s + c)) (map_of (x # t) k))"
    proof (cases "k = d")
      case True
      have "map_of (dv r') d = Some (nh, c_s + c)"
        using ih1 unfolding True by (simp add: map_of_update)
      then show ?thesis unfolding True x using new(1) by simp
    next
      case False
      have e: "map_of (dv ?r) k = map_of (dv r) k" using False by (simp add: map_of_update)
      have mk: "map_of (x # t) k = map_of t k" unfolding x using False by simp
      show ?thesis unfolding ih1 e mk ..
    qed
    have cv: "converged r' = (if keys (x # t) \<subseteq> keys (dv r) then converged r else 2)"
      unfolding c2 using b by (simp only: if_False)
    show ?thesis by (rule conjI[OF a cv])
  qed
qed

text \<open>
  The relaxation loop over a table with distinct keys and without negative costs, started
  in a state where the advertising neighbour costs \<open>c_s\<close>: the neighbour's own entry is
  never lowered, so every advertised destination meets the same \<open>c_s\<close>.
\<close>

lemma bellman_ford_result:
  "distinct (map fst t) \<Longrightarrow> cost_ok t \<Longrightarrow> map_of (dv q) s = Some (n_s, c_s) \<Longrightarrow>
   bellman_ford s t q = Inr q' \<Longrightarrow>
   map_of (dv q') k =
     (case map_of t k of
        None \<Rightarrow> map_of (dv q) k
      | Some (nh_t, c_t) \<Rightarrow>
          (case map_of (dv q) k of
             None \<Rightarrow> None
           | Some (n, c) \<Rightarrow>
               if k \<noteq> addr q \<and> c_s + c_t < c then Some (s, c_s + c_t) else Some (n, c))) \<and>
   converged q' =
     (if \<exists>(d, nh_t, c_t) \<in> set t.
           d \<noteq> addr q \<and> (\<exists>n c. map_of (dv q) d = Some (n, c) \<and> c_s + c_t < c)
      then 2 else converged q)"
proof (induction t arbitrary: q)
  case Nil
  then show ?case by simp
next
  case (Cons x t)
  obtain d nh c0 where x: "x = (d, (nh, c0))" by (cases x) auto
  from Cons.prems(1) have dt: "distinct (map fst t)" and dn: "d \<notin> keys t"
    unfolding x by simp_all
  from dn have mt: "map_of t d = None" by (simp add: map_of_None_keys)
  from Cons.prems(2) have okt: "cost_ok t" and c0: "0 \<le> c0"
    unfolding x by (simp_all add: cost_ok_def)
  have mx: "\<And>k. map_of (x # t) k = (if k = d then Some (nh, c0) else map_of t k)"
    unfolding x by simp
  let ?hit = "\<lambda>q (d, nh_t :: address, c_t).
     d \<noteq> addr q \<and> (\<exists>n c. map_of (dv q) d = Some (n, c) \<and> c_s + c_t < c)"
  have ex: "(\<exists>y \<in> set (x # t). ?hit q y) \<longleftrightarrow> ?hit q x \<or> (\<exists>y \<in> set t. ?hit q y)"
    by simp
  from bellman_ford_Cons[OF Cons.prems(4)[unfolded x]] Cons.prems(3)
  consider (self) "d = addr q" "bellman_ford s t q = Inr q'"
    | (hit) m cd where "d \<noteq> addr q" "map_of (dv q) d = Some (m, cd)" "c_s + c0 < cd"
        "bellman_ford s t (q\<lparr>dv := AList.update d (s, c_s + c0) (dv q), converged := 2\<rparr>) = Inr q'"
    | (nohit) m cd where "d \<noteq> addr q" "map_of (dv q) d = Some (m, cd)" "\<not> c_s + c0 < cd"
        "bellman_ford s t q = Inr q'"
    by auto
  then show ?case
  proof cases
    case self
    from Cons.IH[OF dt okt Cons.prems(3) self(2)]
    have ih1: "map_of (dv q') k =
       (case map_of t k of None \<Rightarrow> map_of (dv q) k
        | Some (nh_t, c_t) \<Rightarrow>
            (case map_of (dv q) k of None \<Rightarrow> None
             | Some (n, c) \<Rightarrow>
                 if k \<noteq> addr q \<and> c_s + c_t < c then Some (s, c_s + c_t) else Some (n, c)))"
      and ih2: "converged q' = (if \<exists>y \<in> set t. ?hit q y then 2 else converged q)"
      by simp_all
    have nx: "\<not> ?hit q x" unfolding x using self(1) by simp
    have a: "map_of (dv q') k =
       (case map_of (x # t) k of None \<Rightarrow> map_of (dv q) k
        | Some (nh_t, c_t) \<Rightarrow>
            (case map_of (dv q) k of None \<Rightarrow> None
             | Some (n, c) \<Rightarrow>
                 if k \<noteq> addr q \<and> c_s + c_t < c then Some (s, c_s + c_t) else Some (n, c)))"
    proof (cases "k = d")
      case True
      have "map_of (dv q') d = map_of (dv q) d" using ih1 unfolding True mt by simp
      then show ?thesis unfolding mx True using self(1) by (simp split: option.splits)
    next
      case False
      then show ?thesis unfolding mx using ih1 by simp
    qed
    have b: "converged q' = (if \<exists>y \<in> set (x # t). ?hit q y then 2 else converged q)"
      unfolding ex using nx ih2 by simp
    show ?thesis using a b by (simp only: split_def)
  next
    case hit
    let ?q = "q\<lparr>dv := AList.update d (s, c_s + c0) (dv q), converged := 2\<rparr>"
    have ds: "d \<noteq> s" using hit(2,3) Cons.prems(3) c0 by auto
    have s1: "map_of (dv ?q) s = Some (n_s, c_s)"
      using Cons.prems(3) ds by (simp add: map_of_update)
    from Cons.IH[OF dt okt s1 hit(4)]
    have ih1: "map_of (dv q') k =
       (case map_of t k of None \<Rightarrow> map_of (dv ?q) k
        | Some (nh_t, c_t) \<Rightarrow>
            (case map_of (dv ?q) k of None \<Rightarrow> None
             | Some (n, c) \<Rightarrow>
                 if k \<noteq> addr ?q \<and> c_s + c_t < c then Some (s, c_s + c_t) else Some (n, c)))"
      and ih2: "converged q' = (if \<exists>y \<in> set t. ?hit ?q y then 2 else converged ?q)"
      by simp_all
    have c2: "converged q' = 2" using ih2 by (simp split: if_splits)
    have hx: "?hit q x" unfolding x using hit(1,2,3) by simp
    have a: "map_of (dv q') k =
       (case map_of (x # t) k of None \<Rightarrow> map_of (dv q) k
        | Some (nh_t, c_t) \<Rightarrow>
            (case map_of (dv q) k of None \<Rightarrow> None
             | Some (n, c) \<Rightarrow>
                 if k \<noteq> addr q \<and> c_s + c_t < c then Some (s, c_s + c_t) else Some (n, c)))"
    proof (cases "k = d")
      case True
      have "map_of (dv q') d = Some (s, c_s + c0)"
        using ih1 unfolding True mt by (simp add: map_of_update)
      then show ?thesis unfolding mx True using hit(1,2,3) by simp
    next
      case False
      have e: "map_of (dv ?q) k = map_of (dv q) k" using False by (simp add: map_of_update)
      have aq: "addr ?q = addr q" by simp
      have mk: "map_of (x # t) k = map_of t k" unfolding mx using False by simp
      show ?thesis unfolding ih1 e mk aq ..
    qed
    have b: "converged q' = (if \<exists>y \<in> set (x # t). ?hit q y then 2 else converged q)"
      unfolding ex using hx c2 by simp
    show ?thesis using a b by (simp only: split_def)
  next
    case nohit
    from Cons.IH[OF dt okt Cons.prems(3) nohit(4)]
    have ih1: "map_of (dv q') k =
       (case map_of t k of None \<Rightarrow> map_of (dv q) k
        | Some (nh_t, c_t) \<Rightarrow>
            (case map_of (dv q) k of None \<Rightarrow> None
             | Some (n, c) \<Rightarrow>
                 if k \<noteq> addr q \<and> c_s + c_t < c then Some (s, c_s + c_t) else Some (n, c)))"
      and ih2: "converged q' = (if \<exists>y \<in> set t. ?hit q y then 2 else converged q)"
      by simp_all
    have nx: "\<not> ?hit q x" unfolding x using nohit(2,3) by simp
    have a: "map_of (dv q') k =
       (case map_of (x # t) k of None \<Rightarrow> map_of (dv q) k
        | Some (nh_t, c_t) \<Rightarrow>
            (case map_of (dv q) k of None \<Rightarrow> None
             | Some (n, c) \<Rightarrow>
                 if k \<noteq> addr q \<and> c_s + c_t < c then Some (s, c_s + c_t) else Some (n, c)))"
    proof (cases "k = d")
      case True
      have "map_of (dv q') d = map_of (dv q) d" using ih1 unfolding True mt by simp
      then show ?thesis unfolding mx True using nohit(2,3) by simp
    next
      case False
      then show ?thesis unfolding mx using ih1 by simp
    qed
    have b: "converged q' = (if \<exists>y \<in> set (x # t). ?hit q y then 2 else converged q)"
      unfolding ex using nx ih2 by simp
    show ?thesis using a b by (simp only: split_def)
  qed
qed
text \<open>
  The whole update, for an advertising neighbour other than the router itself and a table
  with distinct keys and without negative costs. \<open>c_s\<close> is the neighbour's cost after lines
  105--106 (\<open>inf\<close> if the neighbour was unknown); the relaxation meets it bounded, as
  \<open>min c_s inf\<close>.
\<close>

lemma bound_entry_min: "k \<noteq> a \<Longrightarrow> bound_entry a k (n, c) = (n, min c inf_const)"
  by (simp add: bound_entry_def min_def)

lemma update_dv_result:
  assumes dist: "distinct (map fst (dv r))" and dt: "distinct (map fst t)" and ok: "cost_ok t"
    and sa: "s \<noteq> addr r" and ms: "map_of (dv (know_src s r)) s = Some (n_s, c_s)"
    and u: "update_dv r s t = Inr r'"
  shows "k \<noteq> addr r \<Longrightarrow> map_of (dv (know_src s r)) k = Some (n, c) \<Longrightarrow>
       map_of (dv r') k =
         (case map_of t k of
            None \<Rightarrow> Some (n, min c inf_const)
          | Some (nh_t, c_t) \<Rightarrow>
              if min c_s inf_const + c_t < min c inf_const
              then Some (s, min c_s inf_const + c_t) else Some (n, min c inf_const))"
    and "k \<noteq> addr r \<Longrightarrow> map_of (dv (know_src s r)) k = None \<Longrightarrow>
       map_of t k = Some (nh_t, c_t) \<Longrightarrow>
       map_of (dv r') k = Some (nh_t, min (c_s + c_t) inf_const)"
    and "converged r' =
       (if \<not> keys t \<subseteq> insert s (keys (dv r)) \<or>
           (\<exists>(d, nh_t, c_t) \<in> set t. d \<noteq> addr r \<and>
              (\<exists>n c. map_of (dv (know_src s r)) d = Some (n, c) \<and>
                 min c_s inf_const + c_t < min c inf_const))
        then 2 else converged r)"
proof -
  let ?r1 = "know_src s r"
  let ?C = "min c_s inf_const"
  obtain r2 r4 where l: "add_new_entries s t ?r1 = Inr r2"
    and b: "bellman_ford s t (bound r2) = Inr r4"
    and u4: "update_dv r s t = Inr (bound r4)"
    and a2: "addr r2 = addr r" and a4: "addr r4 = addr r"
    by (rule update_dv_phases[of s t r])
  from u u4 have r': "r' = bound r4" by simp
  have d1: "distinct (map fst (dv ?r1))" by (rule distinct_know_src[OF dist])
  have d2: "distinct (map fst (dv r2))" using add_new_entries_fields[OF l] d1 by simp
  have d3: "distinct (map fst (dv (bound r2)))" by (rule distinct_bound[OF d2])
  have d4: "distinct (map fst (dv r4))" by (rule distinct_bellman_ford[OF b d3])
  have L: "\<And>k. map_of (dv r2) k =
      (case map_of (dv ?r1) k of Some v \<Rightarrow> Some v
       | None \<Rightarrow> map_option (\<lambda>(nh, c). (nh, c_s + c)) (map_of t k))"
    using add_new_entries_result[OF ms l] by simp
  have cv2: "converged r2 = (if keys t \<subseteq> insert s (keys (dv r)) then converged r else 2)"
    using add_new_entries_result[OF ms l, of s] by (simp add: keys_know_src converged_know_src)
  have B3: "\<And>k. map_of (dv (bound r2)) k = map_option (bound_entry (addr r) k) (map_of (dv r2) k)"
    using map_of_bound[OF d2] by (simp add: a2)
  have known3: "\<And>k n c. k \<noteq> addr r \<Longrightarrow> map_of (dv ?r1) k = Some (n, c) \<Longrightarrow>
      map_of (dv (bound r2)) k = Some (n, min c inf_const)"
    unfolding B3 L by (simp add: bound_entry_min)
  have new3: "\<And>k nh_t c_t. k \<noteq> addr r \<Longrightarrow> map_of (dv ?r1) k = None \<Longrightarrow>
      map_of t k = Some (nh_t, c_t) \<Longrightarrow>
      map_of (dv (bound r2)) k = Some (nh_t, min (c_s + c_t) inf_const)"
    unfolding B3 L by (simp add: bound_entry_min)
  have s3: "map_of (dv (bound r2)) s = Some (n_s, ?C)"
    by (rule known3[OF sa ms])
  have a3: "addr (bound r2) = addr r" by (simp add: addr_bound a2)
  have R: "\<And>k. map_of (dv r4) k =
     (case map_of t k of
        None \<Rightarrow> map_of (dv (bound r2)) k
      | Some (nh_t, c_t) \<Rightarrow>
          (case map_of (dv (bound r2)) k of
             None \<Rightarrow> None
           | Some (n, c) \<Rightarrow>
               if k \<noteq> addr r \<and> ?C + c_t < c then Some (s, ?C + c_t) else Some (n, c)))"
    using bellman_ford_result[OF dt ok s3 b] unfolding a3 by simp
  have cv4: "converged r4 =
     (if \<exists>(d, nh_t, c_t) \<in> set t.
           d \<noteq> addr r \<and> (\<exists>n c. map_of (dv (bound r2)) d = Some (n, c) \<and> ?C + c_t < c)
      then 2 else converged r2)"
    using bellman_ford_result[OF dt ok s3 b, of s] unfolding a3 converged_bound by simp
  have F: "\<And>k. map_of (dv r') k = map_option (bound_entry (addr r) k) (map_of (dv r4) k)"
    unfolding r' using map_of_bound[OF d4] by (simp add: a4)
  have nohit: "\<And>c_t. 0 \<le> c_t \<Longrightarrow> \<not> ?C + c_t < min (c_s + c_t) inf_const"
    by (simp add: min_def)
  show "map_of (dv r') k =
         (case map_of t k of
            None \<Rightarrow> Some (n, min c inf_const)
          | Some (nh_t, c_t) \<Rightarrow>
              if ?C + c_t < min c inf_const
              then Some (s, ?C + c_t) else Some (n, min c inf_const))"
    if ka: "k \<noteq> addr r" and m1: "map_of (dv ?r1) k = Some (n, c)"
  proof (cases "map_of t k")
    case None
    have "map_of (dv r4) k = Some (n, min c inf_const)"
      unfolding R None using known3[OF ka m1] by simp
    then show ?thesis unfolding F None using ka by (simp add: bound_entry_min)
  next
    case (Some v)
    obtain nh_t c_t where v: "v = (nh_t, c_t)" by (cases v) auto
    have "map_of (dv r4) k =
        (if ?C + c_t < min c inf_const then Some (s, ?C + c_t) else Some (n, min c inf_const))"
      unfolding R Some v using known3[OF ka m1] ka by simp
    then show ?thesis unfolding F Some v using ka
      by (simp add: bound_entry_min min_def)
  qed
  show "map_of (dv r') k = Some (nh_t, min (c_s + c_t) inf_const)"
    if ka: "k \<noteq> addr r" and m1: "map_of (dv ?r1) k = None" and mt: "map_of t k = Some (nh_t, c_t)"
  proof -
    have c0: "0 \<le> c_t" by (rule cost_okD[OF ok mt])
    have e3: "map_of (dv (bound r2)) k = Some (nh_t, min (c_s + c_t) inf_const)"
      by (rule new3[OF ka m1 mt])
    have nc: "\<not> (k \<noteq> addr r \<and> ?C + c_t < min (c_s + c_t) inf_const)"
      using nohit[OF c0] by blast
    have "map_of (dv r4) k =
        (if k \<noteq> addr r \<and> ?C + c_t < min (c_s + c_t) inf_const
         then Some (s, ?C + c_t) else Some (nh_t, min (c_s + c_t) inf_const))"
      unfolding R mt e3 by simp
    then have "map_of (dv r4) k = Some (nh_t, min (c_s + c_t) inf_const)"
      unfolding if_not_P[OF nc] .
    then show ?thesis unfolding F using ka by (simp add: bound_entry_min)
  qed
  have hit_iff: "(\<exists>n c. map_of (dv (bound r2)) d = Some (n, c) \<and> ?C + c_t < c) \<longleftrightarrow>
      (\<exists>n c. map_of (dv ?r1) d = Some (n, c) \<and> ?C + c_t < min c inf_const)"
    if mem: "(d, nh_t, c_t) \<in> set t" and da: "d \<noteq> addr r" for d nh_t c_t
  proof (cases "map_of (dv ?r1) d")
    case None
    have mt: "map_of t d = Some (nh_t, c_t)" using dt mem by simp
    have c0: "0 \<le> c_t" by (rule cost_okD[OF ok mt])
    show ?thesis unfolding new3[OF da None mt] None using nohit[OF c0] by simp
  next
    case (Some v)
    obtain n c where v: "v = (n, c)" by (cases v) auto
    show ?thesis unfolding known3[OF da Some[unfolded v]] Some v by simp
  qed
  have hits: "(\<exists>(d, nh_t, c_t) \<in> set t.
           d \<noteq> addr r \<and> (\<exists>n c. map_of (dv (bound r2)) d = Some (n, c) \<and> ?C + c_t < c)) \<longleftrightarrow>
      (\<exists>(d, nh_t, c_t) \<in> set t. d \<noteq> addr r \<and>
              (\<exists>n c. map_of (dv ?r1) d = Some (n, c) \<and> ?C + c_t < min c inf_const))"
    (is "?A \<longleftrightarrow> ?B")
  proof
    assume ?A
    then obtain d nh_t c_t where mem: "(d, nh_t, c_t) \<in> set t" and da: "d \<noteq> addr r"
      and h: "\<exists>n c. map_of (dv (bound r2)) d = Some (n, c) \<and> ?C + c_t < c"
      by auto
    from h have h': "\<exists>n c. map_of (dv ?r1) d = Some (n, c) \<and> ?C + c_t < min c inf_const"
      unfolding hit_iff[OF mem da] .
    have "case (d, nh_t, c_t) of (d, nh_t, c_t) \<Rightarrow> d \<noteq> addr r \<and>
              (\<exists>n c. map_of (dv ?r1) d = Some (n, c) \<and> ?C + c_t < min c inf_const)"
      using da h' by simp
    with mem show ?B by (rule bexI[rotated])
  next
    assume ?B
    then obtain d nh_t c_t where mem: "(d, nh_t, c_t) \<in> set t" and da: "d \<noteq> addr r"
      and h: "\<exists>n c. map_of (dv ?r1) d = Some (n, c) \<and> ?C + c_t < min c inf_const"
      by auto
    from h have h': "\<exists>n c. map_of (dv (bound r2)) d = Some (n, c) \<and> ?C + c_t < c"
      unfolding hit_iff[OF mem da] .
    have "case (d, nh_t, c_t) of (d, nh_t, c_t) \<Rightarrow> d \<noteq> addr r \<and>
              (\<exists>n c. map_of (dv (bound r2)) d = Some (n, c) \<and> ?C + c_t < c)"
      using da h' by simp
    with mem show ?A by (rule bexI[rotated])
  qed
  have "converged r' = converged r4" unfolding r' by (rule converged_bound)
  then show "converged r' =
       (if \<not> keys t \<subseteq> insert s (keys (dv r)) \<or>
           (\<exists>(d, nh_t, c_t) \<in> set t. d \<noteq> addr r \<and>
              (\<exists>n c. map_of (dv ?r1) d = Some (n, c) \<and> ?C + c_t < min c inf_const))
        then 2 else converged r)"
    unfolding cv4 hits cv2 by simp
qed
section \<open>The relaxation and the upper bound of a whole update\<close>

text \<open>
  One relaxation never raises an entry: it keeps it, or replaces it by a route via the
  advertising neighbour at a strictly lower cost, and that only for an advertised key.
\<close>

lemma bellman_ford_entry:
  "bellman_ford s t q = Inr q' \<Longrightarrow> map_of (dv q) k = Some (n, c) \<Longrightarrow>
   map_of (dv q') k = Some (n, c) \<or>
   (k \<in> keys t \<and> (\<exists>c'. map_of (dv q') k = Some (s, c') \<and> c' < c))"
proof (induction t arbitrary: q n c)
  case Nil
  then show ?case by simp
next
  case (Cons x t)
  obtain d nh c0 where x: "x = (d, (nh, c0))" by (cases x) auto
  have sub: "keys t \<subseteq> keys (x # t)" by auto
  from bellman_ford_Cons[OF Cons.prems(1)[unfolded x]]
  consider (skip) "bellman_ford s t q = Inr q'"
    | (hit) n1 cs m cd where "map_of (dv q) s = Some (n1, cs)" "map_of (dv q) d = Some (m, cd)"
        "cs + c0 < cd"
        "bellman_ford s t (q\<lparr>dv := AList.update d (s, cs + c0) (dv q), converged := 2\<rparr>) = Inr q'"
    by (auto split: if_splits)
  then show ?case
  proof cases
    case skip
    from Cons.IH[OF skip Cons.prems(2)] sub show ?thesis by blast
  next
    case hit
    let ?q = "q\<lparr>dv := AList.update d (s, cs + c0) (dv q), converged := 2\<rparr>"
    show ?thesis
    proof (cases "k = d")
      case True
      have kx: "k \<in> keys (x # t)" unfolding True x by simp
      have m: "map_of (dv ?q) k = Some (s, cs + c0)" by (simp add: True map_of_update)
      have cd: "cd = c" using hit(2) Cons.prems(2) True by simp
      from Cons.IH[OF hit(4) m]
      have "\<exists>c'. map_of (dv q') k = Some (s, c') \<and> c' \<le> cs + c0" by auto
      then obtain c' where "map_of (dv q') k = Some (s, c')" "c' < c"
        using hit(3) cd by auto
      with kx show ?thesis by blast
    next
      case False
      have "map_of (dv ?q) k = Some (n, c)" using Cons.prems(2) False by (simp add: map_of_update)
      from Cons.IH[OF hit(4) this] sub show ?thesis by blast
    qed
  qed
qed

text \<open>
  Hence, whatever the table: an entry for another address that the router holds when the
  learning loop is done ends bounded by \<open>inf\<close> with its next hop kept, unless the
  relaxation replaced it, for an advertised key, by a strictly cheaper route via the
  advertising neighbour.
\<close>

lemma update_dv_entry:
  assumes u: "update_dv r s t = Inr r'" and dist: "distinct (map fst (dv r))"
    and l: "add_new_entries s t (know_src s r) = Inr r2"
    and ka: "k \<noteq> addr r" and m2: "map_of (dv r2) k = Some (n, c)"
  shows "map_of (dv r') k = Some (n, min c inf_const) \<or>
         (k \<in> keys t \<and> (\<exists>c'. map_of (dv r') k = Some (s, c') \<and> c' < min c inf_const))"
proof -
  obtain q2 r4 where l': "add_new_entries s t (know_src s r) = Inr q2"
    and b': "bellman_ford s t (bound q2) = Inr r4"
    and u4: "update_dv r s t = Inr (bound r4)"
    and a2': "addr q2 = addr r" and a4: "addr r4 = addr r"
    by (rule update_dv_phases[of s t r])
  from l l' have q2: "q2 = r2" by simp
  note b = b'[unfolded q2] and a2 = a2'[unfolded q2]
  from u u4 have r': "r' = bound r4" by simp
  have d1: "distinct (map fst (dv (know_src s r)))" by (rule distinct_know_src[OF dist])
  have d2: "distinct (map fst (dv r2))" using add_new_entries_fields[OF l] d1 by simp
  have d3: "distinct (map fst (dv (bound r2)))" by (rule distinct_bound[OF d2])
  have d4: "distinct (map fst (dv r4))" by (rule distinct_bellman_ford[OF b d3])
  have m3: "map_of (dv (bound r2)) k = Some (n, min c inf_const)"
    unfolding map_of_bound[OF d2] a2 m2 using ka by (simp add: bound_entry_min)
  have F: "map_of (dv r') k = map_option (bound_entry (addr r) k) (map_of (dv r4) k)"
    unfolding r' using map_of_bound[OF d4] by (simp add: a4)
  from bellman_ford_entry[OF b m3]
  consider (same) "map_of (dv r4) k = Some (n, min c inf_const)"
    | (relaxed) c' where "k \<in> keys t" "map_of (dv r4) k = Some (s, c')" "c' < min c inf_const"
    by blast
  then show ?thesis
  proof cases
    case same
    then show ?thesis unfolding F using ka by (simp add: bound_entry_min)
  next
    case relaxed
    have "map_of (dv r') k = Some (s, c')"
      unfolding F relaxed(2) using ka relaxed(3) by (simp add: bound_entry_min)
    with relaxed(1,3) show ?thesis by blast
  qed
qed

text \<open>
  Claim C4. \<^verbatim>\<open>read_packet\<close> hands \<^verbatim>\<open>packet.src\<close> and the sender's table to
  \<^verbatim>\<open>update_dv\<close>. The relaxation loop of \<^verbatim>\<open>update_dv\<close> runs after the unknown \<^verbatim>\<open>src\<close> was
  inserted (\<open>know_src\<close>), the unknown destinations were learnt and the costs were bounded
  by \<open>inf\<close>, so the costs it reads are \<open>min c_s inf\<close> for the neighbour \<open>s\<close> and \<open>min c inf\<close>
  for a destination held at cost \<open>c\<close>. For a neighbour other than the router itself
  advertising a table with distinct keys and no negative cost, and for every advertised
  destination \<open>d\<close> other than the router's own address:
  \<^item> if \<open>d\<close> was known, its entry becomes \<open>(s, candidate)\<close> with
    \<open>candidate = min c_s inf + cost\<close> exactly when the candidate is strictly below the
    current cost \<open>min c inf\<close>, and otherwise keeps its next hop and its current cost;
  \<^item> if \<open>d\<close> was unknown, the entry learnt for it is never replaced by the relaxation;
  \<^item> the counter is 2 afterwards exactly when some advertised destination was replaced or
    learnt, and is what it was before otherwise.

  And whatever the table and the neighbour: an entry for another address is only ever
  replaced by a route via \<open>s\<close> at a cost strictly below its current cost \<open>min c inf\<close>, and
  only if its key is advertised; and a call that leaves the distance vector unchanged
  leaves the counter unchanged.
\<close>

theorem update_dv_relaxation:
  assumes "update_dv r s t = Inr r'" and "distinct (map fst (dv r))"
  shows
    "(distinct (map fst t) \<and> cost_ok t \<and> s \<noteq> addr r \<and>
      map_of (dv (know_src s r)) s = Some (n_s, c_s) \<longrightarrow>
        (\<forall>d next_hop cost. map_of t d = Some (next_hop, cost) \<and> d \<noteq> addr r \<longrightarrow>
           (\<forall>n c. map_of (dv (know_src s r)) d = Some (n, c) \<longrightarrow>
              map_of (dv r') d =
                (if min c_s inf_const + cost < min c inf_const
                 then Some (s, min c_s inf_const + cost)
                 else Some (n, min c inf_const))) \<and>
           (map_of (dv (know_src s r)) d = None \<longrightarrow>
              map_of (dv r') d = Some (next_hop, min (c_s + cost) inf_const))) \<and>
        converged r' =
          (if \<not> keys t \<subseteq> insert s (keys (dv r)) \<or>
              (\<exists>(d, next_hop, cost) \<in> set t. d \<noteq> addr r \<and>
                 (\<exists>n c. map_of (dv (know_src s r)) d = Some (n, c) \<and>
                    min c_s inf_const + cost < min c inf_const))
           then 2 else converged r)) \<and>
     (\<forall>k n c. k \<noteq> addr r \<and> map_of (dv (know_src s r)) k = Some (n, c) \<longrightarrow>
        map_of (dv r') k = Some (n, min c inf_const) \<or>
        (k \<in> keys t \<and> (\<exists>c'. map_of (dv r') k = Some (s, c') \<and> c' < min c inf_const))) \<and>
     (dv r' = dv r \<longrightarrow> converged r' = converged r)"
proof (intro conjI impI allI)
  assume h: "distinct (map fst t) \<and> cost_ok t \<and> s \<noteq> addr r \<and>
      map_of (dv (know_src s r)) s = Some (n_s, c_s)"
  then have dt: "distinct (map fst t)" and ok: "cost_ok t" and sa: "s \<noteq> addr r"
    and ms: "map_of (dv (know_src s r)) s = Some (n_s, c_s)"
    by simp_all
  note res = update_dv_result[OF assms(2) dt ok sa ms assms(1)]
  show "converged r' =
          (if \<not> keys t \<subseteq> insert s (keys (dv r)) \<or>
              (\<exists>(d, next_hop, cost) \<in> set t. d \<noteq> addr r \<and>
                 (\<exists>n c. map_of (dv (know_src s r)) d = Some (n, c) \<and>
                    min c_s inf_const + cost < min c inf_const))
           then 2 else converged r)"
    by (rule res(3))
  {
    fix d next_hop cost
    assume a: "map_of t d = Some (next_hop, cost) \<and> d \<noteq> addr r"
    then have mt: "map_of t d = Some (next_hop, cost)" and da: "d \<noteq> addr r" by simp_all
    {
      fix n c
      assume m1: "map_of (dv (know_src s r)) d = Some (n, c)"
      show "map_of (dv r') d =
                (if min c_s inf_const + cost < min c inf_const
                 then Some (s, min c_s inf_const + cost)
                 else Some (n, min c inf_const))"
        using res(1)[OF da m1] unfolding mt by simp
    }
    {
      assume m1: "map_of (dv (know_src s r)) d = None"
      show "map_of (dv r') d = Some (next_hop, min (c_s + cost) inf_const)"
        by (rule res(2)[OF da m1 mt])
    }
  }
next
  fix k n c
  assume h: "k \<noteq> addr r \<and> map_of (dv (know_src s r)) k = Some (n, c)"
  obtain r2 r4 where l: "add_new_entries s t (know_src s r) = Inr r2"
    by (rule update_dv_phases[of s t r])
  from h have m2: "map_of (dv r2) k = Some (n, c)"
    by (intro add_new_entries_keeps[OF l]) simp
  from h update_dv_entry[OF assms l _ m2]
  show "map_of (dv r') k = Some (n, min c inf_const) \<or>
        (k \<in> keys t \<and> (\<exists>c'. map_of (dv r') k = Some (s, c') \<and> c' < min c inf_const))"
    by simp
next
  assume "dv r' = dv r"
  with assms show "converged r' = converged r"
    by (intro update_dv_unchanged)
qed

theorem update_dv_relaxation_witness:
  "update_dv
     \<lparr>addr = ''A'', costs = [(''B'', 1)],
      dv = [(''A'', (''A'', 0)), (''B'', (''B'', 1)), (''C'', (''D'', 9)), (''E'', (''E'', 2))],
      converged = 0, in_queue = [], out_queues = [''B'']\<rparr>
     ''B'' [(''A'', (''A'', 1)), (''B'', (''B'', 0)), (''C'', (''C'', 5)), (''E'', (''E'', 4)),
            (''F'', (''F'', 3))]
   = Inr \<lparr>addr = ''A'', costs = [(''B'', 1)],
          dv = [(''A'', (''A'', 0)), (''B'', (''B'', 1)), (''C'', (''B'', 6)), (''E'', (''E'', 2)),
                (''F'', (''F'', 4))],
          converged = 2, in_queue = [], out_queues = [''B'']\<rparr>
   \<and> map_of [(''A'', (''A'', 0 :: int)), (''B'', (''B'', 1)), (''C'', (''B'', 6)),
              (''E'', (''E'', 2)), (''F'', (''F'', 4))] ''C'' = Some (''B'', 6)
   \<and> map_of [(''A'', (''A'', 0 :: int)), (''B'', (''B'', 1)), (''C'', (''B'', 6)),
              (''E'', (''E'', 2)), (''F'', (''F'', 4))] ''E'' = Some (''E'', 2)
   \<and> map_of [(''A'', (''A'', 0 :: int)), (''B'', (''B'', 1)), (''C'', (''B'', 6)),
              (''E'', (''E'', 2)), (''F'', (''F'', 4))] ''F'' = Some (''F'', 4)
   \<and> update_dv
       \<lparr>addr = ''A'', costs = [(''B'', 1)], dv = [(''A'', (''A'', 0)), (''B'', (''B'', 1))],
        converged = 1, in_queue = [], out_queues = [''B'']\<rparr>
       ''B'' [(''A'', (''A'', 1)), (''B'', (''B'', 0))]
     = Inr \<lparr>addr = ''A'', costs = [(''B'', 1)], dv = [(''A'', (''A'', 0)), (''B'', (''B'', 1))],
            converged = 1, in_queue = [], out_queues = [''B'']\<rparr>"
proof -
  let ?r = "\<lparr>addr = ''A'', costs = [(''B'', 1)],
      dv = [(''A'', (''A'', 0)), (''B'', (''B'', 1)), (''C'', (''D'', 9)), (''E'', (''E'', 2))],
      converged = 0, in_queue = [], out_queues = [''B'']\<rparr>"
  let ?t = "[(''A'', (''A'', 1 :: int)), (''B'', (''B'', 0)), (''C'', (''C'', 5)),
             (''E'', (''E'', 4)), (''F'', (''F'', 3))]"
  let ?r' = "\<lparr>addr = ''A'', costs = [(''B'', 1)],
          dv = [(''A'', (''A'', 0)), (''B'', (''B'', 1)), (''C'', (''B'', 6)), (''E'', (''E'', 2)),
                (''F'', (''F'', 4))],
          converged = 2, in_queue = [], out_queues = [''B'']\<rparr>"
  let ?q = "\<lparr>addr = ''A'', costs = [(''B'', 1)], dv = [(''A'', (''A'', 0)), (''B'', (''B'', 1))],
        converged = 1, in_queue = [], out_queues = [''B'']\<rparr>"
  let ?u = "[(''A'', (''A'', 1 :: int)), (''B'', (''B'', 0))]"
  have e: "update_dv ?r ''B'' ?t = Inr ?r'" by code_simp
  have d: "distinct (map fst (dv ?r))" by simp
  have h: "distinct (map fst ?t) \<and> cost_ok ?t \<and> ''B'' \<noteq> addr ?r \<and>
      map_of (dv (know_src ''B'' ?r)) ''B'' = Some (''B'', 1)"
    by (simp add: cost_ok_def know_src_def)
  have k: "know_src ''B'' ?r = ?r" by (simp add: know_src_def)
  from update_dv_relaxation[OF e d, where n_s = "''B''" and c_s = 1] h
  have all: "\<forall>d next_hop cost. map_of ?t d = Some (next_hop, cost) \<and> d \<noteq> addr ?r \<longrightarrow>
           (\<forall>n c. map_of (dv (know_src ''B'' ?r)) d = Some (n, c) \<longrightarrow>
              map_of (dv ?r') d =
                (if min 1 inf_const + cost < min c inf_const
                 then Some (''B'', min 1 inf_const + cost)
                 else Some (n, min c inf_const))) \<and>
           (map_of (dv (know_src ''B'' ?r)) d = None \<longrightarrow>
              map_of (dv ?r') d = Some (next_hop, min (1 + cost) inf_const))"
    by blast
  have c: "map_of (dv ?r') ''C'' = Some (''B'', 6)"
    using all[rule_format, of "''C''" "''C''" 5, THEN conjunct1, rule_format, of "''D''" 9]
    unfolding k by (simp add: inf_const_def)
  have ee: "map_of (dv ?r') ''E'' = Some (''E'', 2)"
    using all[rule_format, of "''E''" "''E''" 4, THEN conjunct1, rule_format, of "''E''" 2]
    unfolding k by (simp add: inf_const_def)
  have f: "map_of (dv ?r') ''F'' = Some (''F'', 4)"
    using all[rule_format, of "''F''" "''F''" 3, THEN conjunct2, rule_format]
    unfolding k by (simp add: inf_const_def)
  have e2: "update_dv ?q ''B'' ?u = Inr ?q" by code_simp
  have d2: "distinct (map fst (dv ?q))" by simp
  from update_dv_relaxation[OF e2 d2] have "dv ?q = dv ?q \<longrightarrow> converged ?q = converged ?q"
    by blast
  with e c ee f e2 show ?thesis by simp
qed

text \<open>
  Claim C6, as the code has it. After a distance-vector update no entry of the router's
  distance vector costs more than \<open>inf\<close> (16). With the distinct keys of a dict: an entry for
  another address that cost more than \<open>inf\<close> before the update (\<open>know_src\<close> is the router
  after lines 105--106), and an entry learnt in the update at a computed cost \<open>c_s + cost\<close>
  above \<open>inf\<close>, is stored with its next hop and the cost \<open>inf\<close> exactly; the only other
  outcome is that the relaxation of the same call, for an advertised key, replaces it by a
  route via the advertising neighbour at a cost below \<open>inf\<close>. \<^verbatim>\<open>reset\<close> is not an update
  in this sense: it copies the link costs as they are.
\<close>

theorem update_dv_upper_bound:
  assumes "update_dv r s t = Inr r'"
  shows
    "(\<forall>k next_hop cost. map_of (dv r') k = Some (next_hop, cost) \<longrightarrow> cost \<le> inf_const) \<and>
     (distinct (map fst (dv r)) \<longrightarrow>
        (\<forall>k n c. k \<noteq> addr r \<and> map_of (dv (know_src s r)) k = Some (n, c) \<and> inf_const < c \<longrightarrow>
           map_of (dv r') k = Some (n, inf_const) \<or>
           (k \<in> keys t \<and> (\<exists>c'. map_of (dv r') k = Some (s, c') \<and> c' < inf_const))) \<and>
        (\<forall>k next_hop cost n_s c_s.
           k \<noteq> addr r \<and> map_of (dv (know_src s r)) k = None \<and>
           map_of t k = Some (next_hop, cost) \<and>
           map_of (dv (know_src s r)) s = Some (n_s, c_s) \<and> inf_const < c_s + cost \<longrightarrow>
           map_of (dv r') k = Some (next_hop, inf_const) \<or>
           (\<exists>c'. map_of (dv r') k = Some (s, c') \<and> c' < inf_const)))"
proof -
  obtain r2 r4 where l: "add_new_entries s t (know_src s r) = Inr r2"
    and b: "bellman_ford s t (bound r2) = Inr r4"
    and u4: "update_dv r s t = Inr (bound r4)"
    and a2: "addr r2 = addr r" and a4: "addr r4 = addr r"
    by (rule update_dv_phases[of s t r])
  from assms u4 have r': "r' = bound r4" by simp
  have le: "\<forall>k next_hop cost. map_of (dv r') k = Some (next_hop, cost) \<longrightarrow> cost \<le> inf_const"
    unfolding r' using bound_le by blast
  have clamp: "map_of (dv r') k = Some (n, inf_const) \<or>
           (k \<in> keys t \<and> (\<exists>c'. map_of (dv r') k = Some (s, c') \<and> c' < inf_const))"
    if dist: "distinct (map fst (dv r))" and ka: "k \<noteq> addr r"
      and m2: "map_of (dv r2) k = Some (n, c)" and big: "inf_const < c" for k n c
  proof -
    from big have "min c inf_const = inf_const" by simp
    with update_dv_entry[OF assms dist l ka m2] show ?thesis by simp
  qed
  have known: "map_of (dv r') k = Some (n, inf_const) \<or>
           (k \<in> keys t \<and> (\<exists>c'. map_of (dv r') k = Some (s, c') \<and> c' < inf_const))"
    if dist: "distinct (map fst (dv r))"
      and h: "k \<noteq> addr r \<and> map_of (dv (know_src s r)) k = Some (n, c) \<and> inf_const < c"
    for k n c
  proof -
    from h have m1: "map_of (dv (know_src s r)) k = Some (n, c)" by simp
    have m2: "map_of (dv r2) k = Some (n, c)" by (rule add_new_entries_keeps[OF l m1])
    from clamp[OF dist _ m2] h show ?thesis by simp
  qed
  have learnt: "map_of (dv r') k = Some (next_hop, inf_const) \<or>
           (\<exists>c'. map_of (dv r') k = Some (s, c') \<and> c' < inf_const)"
    if dist: "distinct (map fst (dv r))"
      and h: "k \<noteq> addr r \<and> map_of (dv (know_src s r)) k = None \<and>
           map_of t k = Some (next_hop, cost) \<and>
           map_of (dv (know_src s r)) s = Some (n_s, c_s) \<and> inf_const < c_s + cost"
    for k next_hop cost n_s c_s
  proof -
    from h have ka: "k \<noteq> addr r" and m1: "map_of (dv (know_src s r)) k = None"
      and mt: "map_of t k = Some (next_hop, cost)"
      and ms: "map_of (dv (know_src s r)) s = Some (n_s, c_s)"
      and big: "inf_const < c_s + cost"
      by simp_all
    have m2: "map_of (dv r2) k = Some (next_hop, c_s + cost)"
      using add_new_entries_result[OF ms l, of k] unfolding m1 mt by simp
    from clamp[OF dist ka m2 big] show ?thesis by blast
  qed
  from le known learnt show ?thesis by blast
qed

theorem update_dv_upper_bound_witness:
  "update_dv (Router ''A'' [(''B'', 20)] [''B'']) ''B'' [(''C'', (''C'', 5))]
     = Inr \<lparr>addr = ''A'', costs = [(''B'', 20)],
            dv = [(''B'', (''B'', 16)), (''C'', (''C'', 16))],
            converged = 2, in_queue = [], out_queues = [''B'']\<rparr>
   \<and> map_of (dv (know_src ''B'' (Router ''A'' [(''B'', 20)] [''B'']))) ''B'' = Some (''B'', 20)
   \<and> map_of (dv (know_src ''B'' (Router ''A'' [(''B'', 20)] [''B'']))) ''C'' = None
   \<and> inf_const < 20 + (5 :: int)
   \<and> map_of [(''B'', (''B'', 16 :: int)), (''C'', (''C'', 16))] ''B'' = Some (''B'', inf_const)
   \<and> map_of [(''B'', (''B'', 16 :: int)), (''C'', (''C'', 16))] ''C'' = Some (''C'', inf_const)"
proof -
  let ?r = "Router ''A'' [(''B'', 20)] [''B'']"
  let ?t = "[(''C'', (''C'', 5 :: int))]"
  let ?r' = "\<lparr>addr = ''A'', costs = [(''B'', 20)],
            dv = [(''B'', (''B'', 16)), (''C'', (''C'', 16))],
            converged = 2, in_queue = [], out_queues = [''B'']\<rparr>"
  have e: "update_dv ?r ''B'' ?t = Inr ?r'" by code_simp
  have d: "distinct (map fst (dv ?r))" by (simp add: Router_def reset_def)
  have a: "addr ?r = ''A''" by (simp add: Router_def reset_def)
  have mb: "map_of (dv (know_src ''B'' ?r)) ''B'' = Some (''B'', 20)"
    by (simp add: know_src_def Router_def reset_def)
  have mc: "map_of (dv (know_src ''B'' ?r)) ''C'' = None"
    by (simp add: know_src_def Router_def reset_def)
  have big: "inf_const < 20 + (5 :: int)" "inf_const < (20 :: int)" by (simp_all add: inf_const_def)
  from update_dv_upper_bound[OF e] d
  have known: "\<forall>k n c. k \<noteq> addr ?r \<and> map_of (dv (know_src ''B'' ?r)) k = Some (n, c) \<and> inf_const < c \<longrightarrow>
           map_of (dv ?r') k = Some (n, inf_const) \<or>
           (k \<in> keys ?t \<and> (\<exists>c'. map_of (dv ?r') k = Some (''B'', c') \<and> c' < inf_const))"
    and learnt: "\<forall>k next_hop cost n_s c_s.
           k \<noteq> addr ?r \<and> map_of (dv (know_src ''B'' ?r)) k = None \<and>
           map_of ?t k = Some (next_hop, cost) \<and>
           map_of (dv (know_src ''B'' ?r)) ''B'' = Some (n_s, c_s) \<and> inf_const < c_s + cost \<longrightarrow>
           map_of (dv ?r') k = Some (next_hop, inf_const) \<or>
           (\<exists>c'. map_of (dv ?r') k = Some (''B'', c') \<and> c' < inf_const)"
    by blast+
  have b16: "map_of (dv ?r') ''B'' = Some (''B'', inf_const)"
    using known[rule_format, of "''B''" "''B''" 20] mb big(2) a by simp
  have c16: "map_of (dv ?r') ''C'' = Some (''C'', inf_const)"
    using learnt[rule_format, of "''C''" "''C''" 5 "''B''" 20] mb mc big(1) a
    by (simp add: inf_const_def)
  from e mb mc big(1) b16 c16 show ?thesis by simp
qed

text \<open>
  The claim as stated fails right after \<^verbatim>\<open>reset\<close>: with the link \<^verbatim>\<open>A B 20\<close> the new
  router \<open>A\<close> holds the entry \<open>B: (B, 20)\<close>, above \<open>inf\<close>.
\<close>

theorem upper_bound_counterexample:
  "map_of (dv (reset \<lparr>addr = ''A'', costs = [(''B'', 20)], dv = [], converged = 0,
                        in_queue = [], out_queues = [''B'']\<rparr>)) ''B'' = Some (''B'', 20)
   \<and> \<not> (20 :: int) \<le> inf_const"
  by code_simp
section \<open>The invariant of the network\<close>

lemma find_map_addr:
  "(\<And>r. addr (g r) = addr r) \<Longrightarrow>
   find (\<lambda>r. addr r = b) (map g rs) = map_option g (find (\<lambda>r. addr r = b) rs)"
  by (induction rs) auto

lemma get_router_put:
  "get_router b (put d p net) =
     map_option (\<lambda>r. if addr r = d then r\<lparr>in_queue := in_queue r @ [p]\<rparr> else r) (get_router b net)"
  unfolding get_router_def put_def by (simp add: find_map_addr)

lemma find_replace_other:
  "b \<noteq> a \<Longrightarrow> addr r' = a \<Longrightarrow>
   find (\<lambda>r. addr r = b) (map (\<lambda>r. if addr r = a then r' else r) rs) =
   find (\<lambda>r. addr r = b) rs"
  by (induction rs) auto

lemma get_router_other:
  "b \<noteq> addr r' \<Longrightarrow> get_router b (set_router r' net) = get_router b net"
  by (simp add: get_router_def set_router_def find_replace_other)

lemma get_router_exists:
  "a \<in> set (map addr (routers net)) \<Longrightarrow> \<exists>r. get_router a net = Some r"
  by (cases "get_router a net") (auto simp: get_router_def find_None_iff)

lemma addrs_set_router [simp]: "map addr (routers (set_router r' net)) = map addr (routers net)"
  by (simp add: set_router_def)

lemma addrs_put [simp]: "map addr (routers (put a p net)) = map addr (routers net)"
  by (simp add: put_def)

lemma addrs_print [simp]: "map addr (routers (print e net)) = map addr (routers net)"
  by (simp add: print_def)

lemma network_ok_routerD:
  "network_ok net \<Longrightarrow> get_router a net = Some r \<Longrightarrow> router_ok (map addr (routers net)) r"
  by (auto simp: network_ok_def list_all_iff dest: get_router_mem)

lemma network_ok_print [simp]: "network_ok (print e net) = network_ok net"
  by (simp add: network_ok_def print_def)

lemma network_ok_set_router:
  assumes "network_ok net" and "router_ok (map addr (routers net)) r'"
  shows "network_ok (set_router r' net)"
proof -
  have "list_all (router_ok (map addr (routers net))) (routers (set_router r' net))"
    using assms by (auto simp: network_ok_def set_router_def list_all_iff)
  with assms(1) show ?thesis
    unfolding network_ok_def addrs_set_router by simp
qed

lemma router_ok_enqueue:
  "router_ok U r \<Longrightarrow> s \<in> set U \<Longrightarrow>
   router_ok U (r\<lparr>in_queue := in_queue r @ [DVPacket s (addr r) s]\<rparr>)"
  by (auto simp: router_ok_def)

lemma network_ok_put:
  assumes "network_ok net" and "s \<in> set (map addr (routers net))"
  shows "network_ok (put d (DVPacket s d s) net)"
proof -
  have "list_all (router_ok (map addr (routers net))) (routers (put d (DVPacket s d s) net))"
    using assms router_ok_enqueue[OF _ assms(2)]
    by (auto simp: network_ok_def put_def list_all_iff)
  with assms(1) show ?thesis
    unfolding network_ok_def addrs_put by simp
qed

lemma total_potential_print [simp]: "total_potential (print e net) = total_potential net"
  by (simp add: total_potential_def print_def)

lemma potential_in_queue [simp]: "potential U (r\<lparr>in_queue := q\<rparr>) = potential U r"
  by (simp add: potential_def)

lemma total_potential_put [simp]: "total_potential (put a p net) = total_potential net"
proof -
  have "(\<lambda>r. potential (map addr (routers net))
               (if addr r = a then r\<lparr>in_queue := in_queue r @ [p]\<rparr> else r))
        = potential (map addr (routers net))"
    by (rule ext) simp
  then show ?thesis
    unfolding total_potential_def addrs_put by (simp add: put_def comp_def)
qed

lemma total_potential_set_router:
  assumes dist: "distinct (map addr (routers net))" and g: "get_router a net = Some r"
    and a: "addr r' = a"
    and le: "potential (map addr (routers net)) r' \<le> potential (map addr (routers net)) r"
  shows "total_potential (set_router r' net) \<le> total_potential net"
    and "potential (map addr (routers net)) r' < potential (map addr (routers net)) r \<Longrightarrow>
         total_potential (set_router r' net) < total_potential net"
proof -
  let ?U = "map addr (routers net)"
  let ?g = "\<lambda>x. if addr x = addr r' then r' else x"
  have rin: "r \<in> set (routers net)" using g by (rule get_router_mem)
  have ra: "addr r = addr r'" using get_router_addr[OF g] a by simp
  have pt: "potential ?U (?g x) \<le> potential ?U x" if "x \<in> set (routers net)" for x
  proof (cases "addr x = addr r'")
    case True
    then have "x = r" using distinct_addr_eq[OF dist that rin] ra by simp
    with True le show ?thesis by simp
  next
    case False
    then show ?thesis by simp
  qed
  have eq: "total_potential (set_router r' net) = sum_list (map (\<lambda>x. potential ?U (?g x)) (routers net))"
    unfolding total_potential_def addrs_set_router by (simp add: set_router_def comp_def)
  have "sum_list (map (\<lambda>x. potential ?U (?g x)) (routers net))
          \<le> sum_list (map (potential ?U) (routers net))"
    by (rule sum_list_mono) (rule pt)
  then show "total_potential (set_router r' net) \<le> total_potential net"
    unfolding eq by (simp add: total_potential_def)
  show "total_potential (set_router r' net) < total_potential net"
    if lt: "potential ?U r' < potential ?U r"
  proof -
    have lt': "potential ?U (?g r) < potential ?U r" using lt ra by simp
    have "sum_list (map (\<lambda>x. potential ?U (?g x)) (routers net))
          < sum_list (map (potential ?U) (routers net))"
      by (rule sum_list_strict[where x = r and f = "\<lambda>x. potential ?U (?g x)"
            and g = "potential ?U"]) (simp_all only: pt rin lt')
    then show ?thesis unfolding eq by (simp add: total_potential_def)
  qed
qed

section \<open>Sending and routing keep the invariant and do not raise the potential\<close>

lemma fold_put_ok:
  "network_ok net \<Longrightarrow> s \<in> set (map addr (routers net)) \<Longrightarrow>
   network_ok (fold (\<lambda>d. put d (DVPacket s d s)) ds net) \<and>
   map addr (routers (fold (\<lambda>d. put d (DVPacket s d s)) ds net)) = map addr (routers net) \<and>
   total_potential (fold (\<lambda>d. put d (DVPacket s d s)) ds net) = total_potential net \<and>
   (\<forall>b r. get_router b net = Some r \<longrightarrow>
      (\<exists>r1. get_router b (fold (\<lambda>d. put d (DVPacket s d s)) ds net) = Some r1 \<and>
            converged r1 = converged r))"
proof (induction ds arbitrary: net)
  case Nil
  then show ?case by simp
next
  case (Cons d ds)
  let ?net = "put d (DVPacket s d s) net"
  have ok: "network_ok ?net" by (rule network_ok_put[OF Cons.prems])
  have s: "s \<in> set (map addr (routers ?net))" using Cons.prems(2) by simp
  note ih = Cons.IH[OF ok s]
  have g: "\<exists>r1. get_router b (fold (\<lambda>d. put d (DVPacket s d s)) ds ?net) = Some r1 \<and>
            converged r1 = converged r" if "get_router b net = Some r" for b r
  proof -
    from that obtain r0 where "get_router b ?net = Some r0" "converged r0 = converged r"
      by (auto simp: get_router_put)
    with ih show ?thesis by force
  qed
  from ih g show ?case by simp
qed

lemma send_dv_ok:
  assumes ok: "network_ok net"
  shows "network_ok (send_dv a net) \<and>
         map addr (routers (send_dv a net)) = map addr (routers net) \<and>
         total_potential (send_dv a net) \<le> total_potential net \<and>
         (\<forall>r. get_router a net = Some r \<longrightarrow> converged r \<noteq> 0 \<longrightarrow>
              total_potential (send_dv a net) < total_potential net) \<and>
         (\<forall>b r. b \<noteq> a \<longrightarrow> get_router b net = Some r \<longrightarrow>
              (\<exists>r1. get_router b (send_dv a net) = Some r1 \<and> converged r1 = converged r))"
proof (cases "get_router a net")
  case None
  then show ?thesis using ok by (simp add: send_dv_def)
next
  case (Some r)
  show ?thesis
  proof (cases "converged r = 0")
    case True
    with Some ok show ?thesis by (simp add: send_dv_def)
  next
    case False
    let ?U = "map addr (routers net)"
    let ?r = "r\<lparr>converged := converged r - 1\<rparr>"
    let ?net1 = "set_router ?r net"
    let ?net2 = "fold (\<lambda>d. put d (DVPacket (addr r) d (addr r))) (out_queues r) ?net1"
    have sd: "send_dv a net = ?net2" using Some False by (simp add: send_dv_def)
    have ra: "addr r = a" using Some by (rule get_router_addr)
    have rok: "router_ok ?U r" by (rule network_ok_routerD[OF ok Some])
    then have cv: "0 \<le> converged r" "converged r \<le> 2" by (simp_all add: router_ok_def)
    have rok': "router_ok ?U ?r" using rok False by (simp add: router_ok_def)
    have ok1: "network_ok ?net1" by (rule network_ok_set_router[OF ok rok'])
    have dist: "distinct ?U" using ok by (simp add: network_ok_def)
    have lt: "potential ?U ?r < potential ?U r"
      using cv False by (simp add: potential_def)
    have p1: "total_potential ?net1 < total_potential net"
      by (rule total_potential_set_router(2)[OF dist Some _ _ lt]) (simp_all add: ra lt less_imp_le)
    have ain: "addr r \<in> set (map addr (routers ?net1))"
      using get_router_mem[OF Some] by simp
    note f = fold_put_ok[OF ok1 ain, of "out_queues r"]
    have other: "\<exists>r1. get_router b ?net2 = Some r1 \<and> converged r1 = converged r0"
      if "b \<noteq> a" "get_router b net = Some r0" for b r0
    proof -
      have "get_router b ?net1 = Some r0" using that ra by (simp add: get_router_other)
      with f show ?thesis by blast
    qed
    show ?thesis unfolding sd using f p1 other Some by simp
  qed
qed

lemma fold_send_dv_ok:
  "network_ok net \<Longrightarrow>
   network_ok (fold send_dv as net) \<and>
   map addr (routers (fold send_dv as net)) = map addr (routers net) \<and>
   total_potential (fold send_dv as net) \<le> total_potential net \<and>
   (\<forall>a r. a \<in> set as \<longrightarrow> get_router a net = Some r \<longrightarrow> converged r \<noteq> 0 \<longrightarrow>
        total_potential (fold send_dv as net) < total_potential net)"
proof (induction as arbitrary: net)
  case Nil
  then show ?case by simp
next
  case (Cons a as)
  let ?net = "send_dv a net"
  note s = send_dv_ok[OF Cons.prems, of a]
  from s have ok: "network_ok ?net" by simp
  note ih = Cons.IH[OF ok]
  have strict: "total_potential (fold send_dv as ?net) < total_potential net"
    if "b \<in> set (a # as)" "get_router b net = Some r" "converged r \<noteq> 0" for b r
  proof (cases "b = a")
    case True
    with s that have "total_potential ?net < total_potential net" by blast
    with ih show ?thesis by linarith
  next
    case False
    with that(1) have b: "b \<in> set as" by simp
    from s False that(2) obtain r1 where
      "get_router b ?net = Some r1" "converged r1 = converged r" by blast
    with ih b that(3) have "total_potential (fold send_dv as ?net) < total_potential ?net"
      by metis
    with s show ?thesis by linarith
  qed
  have "total_potential (fold send_dv as ?net) \<le> total_potential net"
    using ih s by linarith
  with ih s strict show ?case by simp
qed

lemma Network_send_dv_ok:
  assumes "network_ok net"
  shows "network_ok (Network_send_dv net) \<and>
         map addr (routers (Network_send_dv net)) = map addr (routers net) \<and>
         total_potential (Network_send_dv net) \<le> total_potential net \<and>
         (\<not> is_stable net \<longrightarrow> total_potential (Network_send_dv net) < total_potential net)"
proof -
  note f = fold_send_dv_ok[OF assms, of "map addr (routers net)"]
  have "total_potential (Network_send_dv net) < total_potential net" if "\<not> is_stable net"
  proof -
    from that obtain r where rin: "r \<in> set (routers net)" and c: "converged r \<noteq> 0"
      by (auto simp: is_stable_def list_all_iff)
    have ain: "addr r \<in> set (map addr (routers net))" using rin by simp
    from get_router_exists[OF ain] obtain r0 where g: "get_router (addr r) net = Some r0"
      by blast
    have "r0 = r"
      using distinct_addr_eq[OF _ get_router_mem[OF g] rin] get_router_addr[OF g] assms
      by (simp add: network_ok_def)
    with f g ain c show ?thesis unfolding Network_send_dv_def by blast
  qed
  with f show ?thesis unfolding Network_send_dv_def by simp
qed

lemma router_ok_dequeue:
  "router_ok U r \<Longrightarrow> in_queue r = p # rest \<Longrightarrow>
   router_ok U (r\<lparr>in_queue := rest\<rparr>) \<and> (\<exists>s \<in> set U. p = DVPacket s (addr r) s)"
  by (auto simp: router_ok_def)

lemma router_ok_update_dv:
  assumes r: "router_ok U r" and t: "router_ok U sender" and s: "s \<in> set U"
    and u: "update_dv r s (dv sender) = Inr r'"
  shows "router_ok U r' \<and> addr r' = addr r \<and> in_queue r' = in_queue r \<and>
         potential U r' \<le> potential U r"
proof -
  have dist: "distinct (map fst (dv r))" and ok: "cost_ok (dv r)"
    and okt: "cost_ok (dv sender)" and sub: "keys (dv sender) \<subseteq> set U"
    using r t by (simp_all add: router_ok_def)
  note f = update_dv_ok[OF u dist ok okt]
  have k: "keys (dv r') \<subseteq> set U"
    using f r s sub by (auto simp: router_ok_def)
  have c: "0 \<le> converged r' \<and> converged r' \<le> 2"
    using f r by (auto simp: router_ok_def)
  have "router_ok U r'"
    using f r k c by (simp add: router_ok_def)
  moreover have "potential U r' \<le> potential U r"
    by (rule update_dv_potential[OF u dist ok okt sub])
  ultimately show ?thesis using f by simp
qed

text \<open>
  A router whose queue holds only distance-vector packets addressed to itself drains the
  queue: \<^verbatim>\<open>route\<close> returns, without an error.
\<close>

lemma route_ok:
  "network_ok net \<Longrightarrow> get_router a net = Some r \<Longrightarrow> length (in_queue r) = n \<Longrightarrow>
   \<exists>net'. route a net = Some (Inr net') \<and> network_ok net' \<and>
          map addr (routers net') = map addr (routers net) \<and>
          total_potential net' \<le> total_potential net"
proof (induction n arbitrary: net r)
  case 0
  then have "in_queue r = []" by simp
  then have "route a net = Some (Inr net)"
    by (subst route.simps) (simp add: "0.prems"(2))
  with "0.prems"(1) show ?case by simp
next
  case (Suc n)
  let ?U = "map addr (routers net)"
  from Suc.prems(3) obtain p rest where q: "in_queue r = p # rest" and len: "length rest = n"
    by (cases "in_queue r") auto
  have ra: "addr r = a" using Suc.prems(2) by (rule get_router_addr)
  have dist: "distinct ?U" using Suc.prems(1) by (simp add: network_ok_def)
  have rok: "router_ok ?U r" by (rule network_ok_routerD[OF Suc.prems(1,2)])
  let ?r1 = "r\<lparr>in_queue := rest\<rparr>"
  let ?net1 = "set_router ?r1 net"
  from router_ok_dequeue[OF rok q] obtain s where
    r1ok: "router_ok ?U ?r1" and s: "s \<in> set ?U" and p: "p = DVPacket s a s"
    using ra by auto
  have ok1: "network_ok ?net1" by (rule network_ok_set_router[OF Suc.prems(1) r1ok])
  have g1: "get_router a ?net1 = Some ?r1"
    by (rule get_router_set_router[OF Suc.prems(2)]) (simp add: ra)
  have p1: "total_potential ?net1 \<le> total_potential net"
    by (rule total_potential_set_router(1)[OF dist Suc.prems(2)]) (simp_all add: ra)
  have "s \<in> set (map addr (routers ?net1))" using s by simp
  from get_router_exists[OF this] obtain sender where gs: "get_router s ?net1 = Some sender"
    by blast
  have sok: "router_ok ?U sender"
    using network_ok_routerD[OF ok1 gs] by simp
  obtain r' where u: "update_dv ?r1 s (dv sender) = Inr r'"
    using update_dv_phases[of s "dv sender" ?r1] by metis
  note f = router_ok_update_dv[OF r1ok sok s u]
  let ?net2 = "set_router r' (print (ReceivedDV a s) ?net1)"
  have rp: "route_packet a p ?net1 = Inr ?net2"
    unfolding p by (simp add: route_packet_def read_packet_def g1 gs u ra)
  have ok2: "network_ok ?net2"
    by (rule network_ok_set_router) (simp_all add: ok1 f)
  have g2: "get_router a ?net2 = Some r'"
    by (rule get_router_set_router[where r = ?r1]) (simp_all add: g1 f ra)
  have p2: "total_potential ?net2 \<le> total_potential ?net1"
  proof -
    have pf: "potential ?U r' \<le> potential ?U r" using f by simp
    have "total_potential ?net2 \<le> total_potential (print (ReceivedDV a s) ?net1)"
      by (rule total_potential_set_router(1)[where r = ?r1 and a = a])
         (simp_all add: dist g1 f ra pf)
    then show ?thesis by simp
  qed
  have len2: "length (in_queue r') = n" using f len by simp
  from Suc.IH[OF ok2 g2 len2] obtain net' where
    r: "route a ?net2 = Some (Inr net')" and ok': "network_ok net'"
    and a': "map addr (routers net') = map addr (routers ?net2)"
    and p': "total_potential net' \<le> total_potential ?net2"
    by blast
  have "route a net = route a ?net2"
    by (subst route.simps) (simp add: Suc.prems(2) q rp)
  then have "route a net = Some (Inr net')" using r by simp
  moreover have "map addr (routers net') = map addr (routers net)" using a' by simp
  moreover have "total_potential net' \<le> total_potential net" using p' p2 p1 by linarith
  ultimately show ?case using ok' by blast
qed

lemma route_each_ok:
  "network_ok net \<Longrightarrow> set as \<subseteq> set (map addr (routers net)) \<Longrightarrow>
   \<exists>net'. route_each as net = Some (Inr net') \<and> network_ok net' \<and>
          map addr (routers net') = map addr (routers net) \<and>
          total_potential net' \<le> total_potential net"
proof (induction as arbitrary: net)
  case Nil
  then show ?case by simp
next
  case (Cons a as)
  have "a \<in> set (map addr (routers net))" using Cons.prems(2) by simp
  from get_router_exists[OF this] obtain r where g: "get_router a net = Some r" by blast
  from route_ok[OF Cons.prems(1) g refl] obtain net1 where
    r: "route a net = Some (Inr net1)" and ok1: "network_ok net1"
    and a1: "map addr (routers net1) = map addr (routers net)"
    and p1: "total_potential net1 \<le> total_potential net"
    by blast
  have "set as \<subseteq> set (map addr (routers net1))" using Cons.prems(2) unfolding a1 by simp
  from Cons.IH[OF ok1 this] obtain net' where
    e: "route_each as net1 = Some (Inr net')" and ok': "network_ok net'"
    and a': "map addr (routers net') = map addr (routers net1)"
    and p': "total_potential net' \<le> total_potential net1"
    by blast
  have "route_each (a # as) net = Some (Inr net')" using r e by simp
  moreover have "map addr (routers net') = map addr (routers net)" using a' a1 by simp
  moreover have "total_potential net' \<le> total_potential net" using p' p1 by linarith
  ultimately show ?case using ok' by blast
qed

lemma step_ok:
  assumes "network_ok net"
  shows "\<exists>net'. step net = Some (Inr net') \<and> network_ok net' \<and>
          total_potential net' \<le> total_potential net \<and>
          (\<not> is_stable net \<longrightarrow> total_potential net' < total_potential net)"
proof -
  let ?net1 = "Network_send_dv net"
  note s = Network_send_dv_ok[OF assms]
  from s have ok1: "network_ok ?net1" by simp
  have "set (map addr (routers ?net1)) \<subseteq> set (map addr (routers ?net1))" by simp
  from route_each_ok[OF ok1 this] obtain net' where
    e: "route_each (map addr (routers ?net1)) ?net1 = Some (Inr net')" and ok': "network_ok net'"
    and p': "total_potential net' \<le> total_potential ?net1"
    by blast
  have "step net = Some (Inr net')" using e by (simp add: step_def Network_route_def)
  moreover have "total_potential net' \<le> total_potential net" using p' s by linarith
  moreover have "total_potential net' < total_potential net" if "\<not> is_stable net"
    using p' s that by linarith
  ultimately show ?thesis using ok' by blast
qed

text \<open>The loop of \<^verbatim>\<open>run_until_converged\<close> ends: every step of an unstable network lowers the potential.\<close>

lemma converge_loop_ok:
  "network_ok net \<Longrightarrow> \<exists>n net'. converge_loop k net = Some (Inr (n, net')) \<and> is_stable net'"
proof (induction "total_potential net" arbitrary: net k rule: less_induct)
  case less
  show ?case
  proof (cases "is_stable net")
    case True
    then have "converge_loop k net = Some (Inr (k, net))"
      by (subst converge_loop.simps) simp
    with True show ?thesis by blast
  next
    case False
    from step_ok[OF less.prems] False obtain net1 where
      s: "step net = Some (Inr net1)" and ok1: "network_ok net1"
      and lt: "total_potential net1 < total_potential net"
      by blast
    from less.hyps[OF lt ok1, of "k + 1"] obtain n net' where
      c: "converge_loop (k + 1) net1 = Some (Inr (n, net'))" and st: "is_stable net'"
      by blast
    have "converge_loop k net = converge_loop (k + 1) net1"
      by (subst converge_loop.simps) (simp add: False s)
    with c st show ?thesis by auto
  qed
qed

section \<open>Changing a link cost in the network\<close>

text \<open>
  Claim C8. For the router at \<open>s\<close> and a neighbour \<open>d\<close> (a key of its distance vector, as
  every neighbour is from \<^verbatim>\<open>reset\<close> on), changing the link cost to \<open>cost\<close> raises nothing;
  it stores \<open>(d, cost)\<close> in the distance vector and sets the counter to 2 when \<open>cost\<close> is
  strictly below the current cost of \<open>d\<close>, and otherwise changes only the link-cost table.
  No other router and nothing printed changes.
\<close>

theorem change_link_cost_effect:
  assumes "get_router s net = Some r"
    and "map_of (dv r) d = Some (next_hop, old_cost)"
  shows "\<exists>net'. Network_change_link_cost s d cost net = Inr net' \<and>
           get_router s net' =
             Some (if cost < old_cost
                   then r\<lparr>costs := AList.update d cost (costs r),
                          dv := AList.update d (d, cost) (dv r), converged := 2\<rparr>
                   else r\<lparr>costs := AList.update d cost (costs r)\<rparr>) \<and>
           (\<forall>b. b \<noteq> s \<longrightarrow> get_router b net' = get_router b net) \<and>
           printed net' = printed net"
proof -
  let ?r' = "if cost < old_cost
             then r\<lparr>costs := AList.update d cost (costs r),
                    dv := AList.update d (d, cost) (dv r), converged := 2\<rparr>
             else r\<lparr>costs := AList.update d cost (costs r)\<rparr>"
  have c: "change_link_cost r d cost = Inr ?r'"
    by (rule change_link_cost_known[OF assms(2)])
  have a: "addr ?r' = s" using get_router_addr[OF assms(1)] by simp
  have n: "Network_change_link_cost s d cost net = Inr (set_router ?r' net)"
    unfolding Network_change_link_cost_def by (simp only: assms(1) c option.case sum.case)
  have g: "get_router s (set_router ?r' net) = Some ?r'"
    by (rule get_router_set_router[OF assms(1) a])
  have o: "get_router b (set_router ?r' net) = get_router b net" if "b \<noteq> s" for b
    by (rule get_router_other) (use that a in simp)
  have p: "printed (set_router ?r' net) = printed net"
    by (simp add: set_router_def)
  from n g o p show ?thesis by blast
qed

theorem change_link_cost_effect_witness:
  "Network_change_link_cost ''A'' ''B'' 1
     \<lparr>routers = [\<lparr>addr = ''A'', costs = [(''B'', 5)], dv = [(''B'', (''B'', 5))],
                  converged = 0, in_queue = [], out_queues = [''B'']\<rparr>,
                 \<lparr>addr = ''B'', costs = [(''A'', 5)], dv = [(''A'', (''A'', 5))],
                  converged = 0, in_queue = [], out_queues = [''A'']\<rparr>], printed = []\<rparr>
   = Inr \<lparr>routers = [\<lparr>addr = ''A'', costs = [(''B'', 1)], dv = [(''B'', (''B'', 1))],
                  converged = 2, in_queue = [], out_queues = [''B'']\<rparr>,
                 \<lparr>addr = ''B'', costs = [(''A'', 5)], dv = [(''A'', (''A'', 5))],
                  converged = 0, in_queue = [], out_queues = [''A'']\<rparr>], printed = []\<rparr>
   \<and> Network_change_link_cost ''A'' ''B'' 7
     \<lparr>routers = [\<lparr>addr = ''A'', costs = [(''B'', 5)], dv = [(''B'', (''B'', 5))],
                  converged = 0, in_queue = [], out_queues = [''B'']\<rparr>,
                 \<lparr>addr = ''B'', costs = [(''A'', 5)], dv = [(''A'', (''A'', 5))],
                  converged = 0, in_queue = [], out_queues = [''A'']\<rparr>], printed = []\<rparr>
   = Inr \<lparr>routers = [\<lparr>addr = ''A'', costs = [(''B'', 7)], dv = [(''B'', (''B'', 5))],
                  converged = 0, in_queue = [], out_queues = [''B'']\<rparr>,
                 \<lparr>addr = ''B'', costs = [(''A'', 5)], dv = [(''A'', (''A'', 5))],
                  converged = 0, in_queue = [], out_queues = [''A'']\<rparr>], printed = []\<rparr>"
proof -
  let ?r = "\<lparr>addr = ''A'', costs = [(''B'', 5)], dv = [(''B'', (''B'', 5))],
             converged = 0, in_queue = [], out_queues = [''B'']\<rparr>"
  let ?net = "\<lparr>routers = [?r, \<lparr>addr = ''B'', costs = [(''A'', 5)], dv = [(''A'', (''A'', 5))],
                  converged = 0, in_queue = [], out_queues = [''A'']\<rparr>], printed = []\<rparr>"
  have g: "get_router ''A'' ?net = Some ?r" by (simp add: get_router_def)
  have m: "map_of (dv ?r) ''B'' = Some (''B'', 5)" by simp
  have 1: "Network_change_link_cost ''A'' ''B'' 1 ?net
     = Inr \<lparr>routers = [\<lparr>addr = ''A'', costs = [(''B'', 1)], dv = [(''B'', (''B'', 1))],
                  converged = 2, in_queue = [], out_queues = [''B'']\<rparr>,
                 \<lparr>addr = ''B'', costs = [(''A'', 5)], dv = [(''A'', (''A'', 5))],
                  converged = 0, in_queue = [], out_queues = [''A'']\<rparr>], printed = []\<rparr>"
    by code_simp
  have 2: "Network_change_link_cost ''A'' ''B'' 7 ?net
     = Inr \<lparr>routers = [\<lparr>addr = ''A'', costs = [(''B'', 7)], dv = [(''B'', (''B'', 5))],
                  converged = 0, in_queue = [], out_queues = [''B'']\<rparr>,
                 \<lparr>addr = ''B'', costs = [(''A'', 5)], dv = [(''A'', (''A'', 5))],
                  converged = 0, in_queue = [], out_queues = [''A'']\<rparr>], printed = []\<rparr>"
    by code_simp
  from change_link_cost_effect[OF g m, of 1] change_link_cost_effect[OF g m, of 7] 1 2
  show ?thesis by simp
qed

text \<open>
  What the next hop stored by the learning pass (claim C5) leads to: in the converged network
  of the topology \<^verbatim>\<open>A B 1\<close>, \<^verbatim>\<open>B A 1\<close>, \<^verbatim>\<open>B C 5\<close>, \<^verbatim>\<open>C B 5\<close> router \<open>A\<close> holds \<open>C: (C, 6)\<close>,
  and routing a message from \<open>A\<close> to \<open>C\<close> raises \<^verbatim>\<open>KeyError\<close> at \<open>A\<close>, whose only out queue is
  that of \<open>B\<close>.
\<close>

lemma learnt_next_hop_is_no_neighbour:
  "route ''A'' \<lparr>routers =
        [\<lparr>addr = ''A'', costs = [(''B'', 1)],
          dv = [(''B'', (''B'', 1)), (''A'', (''A'', 0)), (''C'', (''C'', 6))],
          converged = 0, in_queue = [HTTPPacket ''A'' ''C'' ''hi''], out_queues = [''B'']\<rparr>,
         \<lparr>addr = ''B'', costs = [(''A'', 1), (''C'', 5)],
          dv = [(''A'', (''A'', 1)), (''C'', (''C'', 5)), (''B'', (''B'', 0))],
          converged = 0, in_queue = [], out_queues = [''A'', ''C'']\<rparr>,
         \<lparr>addr = ''C'', costs = [(''B'', 5)],
          dv = [(''B'', (''B'', 5)), (''A'', (''A'', 6)), (''C'', (''C'', 0))],
          converged = 0, in_queue = [], out_queues = [''B'']\<rparr>],
      printed = []\<rparr>
   = Some (Inl (KeyError ''C''))"
  by code_simp

section \<open>The constructed network and the termination of run_until_converged\<close>

lemma fold_update_mem:
  "((s, d), c) \<in> set (fold (\<lambda>(s, d, cost). AList.update (s, d) cost) lines acc) \<Longrightarrow>
   ((s, d), c) \<in> set acc \<or> (s, d, c) \<in> set lines"
proof (induction lines arbitrary: acc)
  case Nil
  then show ?case by simp
next
  case (Cons x lines)
  obtain s0 d0 c0 where x: "x = (s0, d0, c0)" by (cases x) auto
  from Cons.prems have
    "((s, d), c) \<in> set (fold (\<lambda>(s, d, cost). AList.update (s, d) cost) lines
                          (AList.update (s0, d0) c0 acc))"
    unfolding x by simp
  from Cons.IH[OF this] set_update_subset[of "(s0, d0)" c0 acc] show ?case
    unfolding x by auto
qed

lemma read_costs_mem: "((s, d), c) \<in> set (read_costs lines) \<Longrightarrow> (s, d, c) \<in> set lines"
  using fold_update_mem[of s d c lines "[]"] by (simp add: read_costs_def)

lemma distinct_fold_update:
  "distinct (map fst acc) \<Longrightarrow>
   distinct (map fst (fold (\<lambda>(s, d, cost). AList.update (s, d) cost) lines acc))"
proof (induction lines arbitrary: acc)
  case Nil
  then show ?case by simp
next
  case (Cons x lines)
  obtain s0 d0 c0 where x: "x = (s0, d0, c0)" by (cases x) auto
  have "distinct (map fst (AList.update (s0, d0) c0 acc))"
    using Cons.prems by (simp add: distinct_update)
  from Cons.IH[OF this] show ?case unfolding x by simp
qed

lemma distinct_read_costs: "distinct (map fst (read_costs lines))"
  using distinct_fold_update[of "[]" lines] by (simp add: read_costs_def)

lemma distinct_links:
  "distinct (map fst cs) \<Longrightarrow>
   distinct (map (\<lambda>((s, d), cost). d) (filter (\<lambda>((s, d), cost). s = a) cs))"
proof (induction cs)
  case Nil
  then show ?case by simp
next
  case (Cons x cs)
  obtain s d c where x: "x = ((s, d), c)" by (cases x) auto
  have ih: "distinct (map (\<lambda>((s, d), cost). d) (filter (\<lambda>((s, d), cost). s = a) cs))"
    using Cons by simp
  have "(s, d) \<notin> fst ` set cs" using Cons.prems unfolding x by simp
  then have "d \<notin> set (map (\<lambda>((s, d), cost). d) (filter (\<lambda>((s, d), cost). s = a) cs))"
    if "s = a" using that by force
  with ih show ?case unfolding x by simp
qed

lemma Router_ok:
  assumes d: "distinct (map fst cs)" and k: "keys cs \<subseteq> set U"
    and c: "\<And>k cost. (k, cost) \<in> set cs \<Longrightarrow> 0 \<le> cost" and o: "set outs \<subseteq> set U"
  shows "router_ok U (Router a cs outs)"
proof -
  let ?dv = "map (\<lambda>(d, cost). (d, (d, cost))) cs"
  have f: "dv (Router a cs outs) = ?dv" "out_queues (Router a cs outs) = outs"
    "converged (Router a cs outs) = 2" "in_queue (Router a cs outs) = []"
    by (simp_all add: Router_def reset_def)
  have 1: "map fst ?dv = map fst cs"
    by (induction cs) auto
  have 2: "cost_ok ?dv"
    by (rule cost_okI) (use c in auto)
  have 3: "keys ?dv = keys cs"
    by force
  have "distinct (map fst ?dv)" unfolding 1 by (rule d)
  moreover have "keys ?dv \<subseteq> set U" unfolding 3 by (rule k)
  ultimately show ?thesis
    unfolding router_ok_def f using 2 o by simp
qed

lemma Network_ok:
  assumes a: "is_addrs addrs lines" and n: "list_all (\<lambda>(s, d, cost). 0 \<le> cost) lines"
  shows "network_ok (Network addrs lines)"
proof -
  let ?costs = "read_costs lines"
  let ?cs = "\<lambda>a. map (\<lambda>((s, d), cost). (d, cost)) (filter (\<lambda>((s, d), cost). s = a) ?costs)"
  let ?outs = "\<lambda>a. map (\<lambda>((s, d), cost). d) (filter (\<lambda>((s, d), cost). s = a) ?costs)"
  have U: "set addrs = set (concat (map (\<lambda>(s, d, cost). [s, d]) lines))"
    and dist: "distinct addrs"
    using a by (simp_all add: is_addrs_def)
  have addr_R: "addr (Router b cs outs) = b" for b cs outs
    by (simp add: Router_def reset_def)
  have addrs: "map addr (routers (Network addrs lines)) = addrs"
    by (simp add: Network_def Let_def comp_def addr_R)
  have fst_cs: "map fst (?cs b) = ?outs b" for b
    by (induction ?costs) (auto simp: comp_def split_beta)
  have mem: "(d, c) \<in> set (?cs b) \<Longrightarrow> (b, d, c) \<in> set lines" for b d c
    using read_costs_mem[of b d c lines] by auto
  have inU: "(b, d, c) \<in> set lines \<Longrightarrow> d \<in> set addrs" for b d c
    unfolding U by force
  have mem_out: "d \<in> set (?outs b) \<Longrightarrow> \<exists>c. (b, d, c) \<in> set lines" for b d
    using read_costs_mem[of b d _ lines] by auto
  have ok: "router_ok addrs (Router b (?cs b) (?outs b))" for b
  proof (rule Router_ok)
    show "distinct (map fst (?cs b))"
      unfolding fst_cs by (rule distinct_links[OF distinct_read_costs])
    show "keys (?cs b) \<subseteq> set addrs"
    proof
      fix d assume "d \<in> keys (?cs b)"
      then obtain c where "(d, c) \<in> set (?cs b)" by force
      from inU[OF mem[OF this]] show "d \<in> set addrs" .
    qed
    show "0 \<le> cost" if "(k, cost) \<in> set (?cs b)" for k cost
      using mem[OF that] n by (auto simp: list_all_iff)
    show "set (?outs b) \<subseteq> set addrs"
    proof
      fix d assume "d \<in> set (?outs b)"
      from mem_out[OF this] obtain c where "(b, d, c) \<in> set lines" by blast
      from inU[OF this] show "d \<in> set addrs" .
    qed
  qed
  have "list_all (router_ok addrs) (routers (Network addrs lines))"
    using ok by (simp add: Network_def Let_def list_all_iff)
  with dist show ?thesis unfolding network_ok_def addrs by simp
qed

text \<open>
  Claim C3. For every network constructed from a topology (a finite list of edges) whose
  link costs are non-negative integers, in whichever order the addresses are enumerated,
  \<^verbatim>\<open>run_until_converged\<close> terminates without an error, returns a step count, and leaves the
  network stable.
\<close>

theorem run_until_converged_terminates:
  assumes "is_addrs addrs lines"
    and "list_all (\<lambda>(s, d, cost). 0 \<le> cost) lines"
  shows "\<exists>n net'. run_until_converged (Network addrs lines) = Some (Inr (n, net')) \<and>
                  is_stable net'"
  unfolding run_until_converged_def
  by (rule converge_loop_ok) (rule Network_ok[OF assms])

theorem run_until_converged_terminates_witness:
  "\<exists>n net'. run_until_converged
      (Network [''A'', ''B'', ''C'']
         [(''A'', ''B'', 1), (''B'', ''A'', 1), (''B'', ''C'', 5), (''C'', ''B'', 5)])
      = Some (Inr (n, net')) \<and> is_stable net'"
proof -
  have 1: "is_addrs [''A'', ''B'', ''C'']
             [(''A'', ''B'', 1), (''B'', ''A'', 1), (''B'', ''C'', 5), (''C'', ''B'', 5 :: int)]"
    by (simp add: is_addrs_def) blast
  have 2: "list_all (\<lambda>(s, d, cost). 0 \<le> cost)
             [(''A'', ''B'', 1), (''B'', ''A'', 1), (''B'', ''C'', 5), (''C'', ''B'', 5 :: int)]"
    by simp
  from run_until_converged_terminates[OF 1 2] show ?thesis .
qed

lemma run_until_converged_example:
  "run_until_converged
      (Network [''A'', ''B'', ''C'']
         [(''A'', ''B'', 1), (''B'', ''A'', 1), (''B'', ''C'', 5), (''C'', ''B'', 5)])
   = Some (Inr (3, \<lparr>routers =
        [\<lparr>addr = ''A'', costs = [(''B'', 1)],
          dv = [(''B'', (''B'', 1)), (''A'', (''A'', 0)), (''C'', (''C'', 6))],
          converged = 0, in_queue = [], out_queues = [''B'']\<rparr>,
         \<lparr>addr = ''B'', costs = [(''A'', 1), (''C'', 5)],
          dv = [(''A'', (''A'', 1)), (''C'', (''C'', 5)), (''B'', (''B'', 0))],
          converged = 0, in_queue = [], out_queues = [''A'', ''C'']\<rparr>,
         \<lparr>addr = ''C'', costs = [(''B'', 5)],
          dv = [(''B'', (''B'', 5)), (''A'', (''A'', 6)), (''C'', (''C'', 0))],
          converged = 0, in_queue = [], out_queues = [''B'']\<rparr>],
      printed = [ReceivedDV ''A'' ''B'', ReceivedDV ''B'' ''A'', ReceivedDV ''B'' ''C'',
                 ReceivedDV ''C'' ''B'', ReceivedDV ''A'' ''B'', ReceivedDV ''B'' ''A'',
                 ReceivedDV ''B'' ''C'', ReceivedDV ''C'' ''B'', ReceivedDV ''A'' ''B'',
                 ReceivedDV ''B'' ''A'', ReceivedDV ''B'' ''C'', ReceivedDV ''C'' ''B'']\<rparr>))"
  by code_simp

end
